theory Spec2Isabelle
  imports Main "HOL-Library.Sublist" "HOL-Library.AList" "HOL-Library.Char_ord"
    "HOL-Library.List_Lexorder"
begin

section \<open>Strings\<close>

text \<open>
  A Python string is modelled as a \<^typ>\<open>string\<close>, one \<^typ>\<open>char\<close> per code point
  below 256. \<open>isspace\<close> is \<open>str.isspace\<close> of Python 3 on that range.
\<close>

definition newline :: char where
  "newline = CHR 0x0A"

definition isspace :: "char \<Rightarrow> bool" where
  "isspace c = (c \<in> {CHR 0x09, CHR 0x0A, CHR 0x0B, CHR 0x0C, CHR 0x0D,
                      CHR 0x1C, CHR 0x1D, CHR 0x1E, CHR 0x1F, CHR '' '', CHR 0x85, CHR 0xA0})"

definition lstrip :: "string \<Rightarrow> string" where
  "lstrip s = dropWhile isspace s"

definition rstrip :: "string \<Rightarrow> string" where
  "rstrip s = rev (dropWhile isspace (rev s))"

definition strip :: "string \<Rightarrow> string" where
  "strip s = rstrip (lstrip s)"

definition ljust :: "nat \<Rightarrow> string \<Rightarrow> string" where
  "ljust n s = s @ replicate (n - length s) CHR '' ''"

definition startswith :: "string \<Rightarrow> string \<Rightarrow> bool" where
  "startswith s w = prefix w s"

text \<open>\<open>str.find\<close>: the index of the first occurrence, or \<open>-1\<close>.\<close>

fun find :: "string \<Rightarrow> string \<Rightarrow> int" where
  "find [] w = (if w = [] then 0 else -1)"
| "find (c # cs) w =
     (if prefix w (c # cs) then 0
      else (let i = find cs w in if i < 0 then -1 else i + 1))"

text \<open>\<open>str.lower\<close> on code points below 256.\<close>

definition lower_char :: "char \<Rightarrow> char" where
  "lower_char c =
     (let n = of_char c :: nat
      in if (65 \<le> n \<and> n \<le> 90) \<or> (192 \<le> n \<and> n \<le> 222 \<and> n \<noteq> 215)
         then char_of (n + 32) else c)"

definition lower :: "string \<Rightarrow> string" where
  "lower s = map lower_char s"

section \<open>The dependency pattern\<close>

text \<open>
  \<open>RE_DEPENDENCY\<close> is
  \<^verbatim>\<open>(?iu)(?P<package>.+)==(?P<version>[^ ]+) *(?:(?P<comment>#.*))?$\<close>,
  used with \<open>re.match\<close>. The matcher below is the backtracking search of the regular
  expression engine for exactly the constructs of this pattern, in continuation-passing
  style: a greedy repetition tries the longest run first and gives characters back one
  at a time while the rest of the pattern fails.
\<close>

text \<open>\<open>.\<close> matches every character but the newline.\<close>

definition dot :: "char \<Rightarrow> bool" where
  "dot c = (c \<noteq> newline)"

text \<open>\<open>[^ ]\<close> matches every character but the space.\<close>

definition not_space :: "char \<Rightarrow> bool" where
  "not_space c = (c \<noteq> CHR '' '')"

definition space :: "char \<Rightarrow> bool" where
  "space c = (c = CHR '' '')"

text \<open>\<open>X*\<close>, greedy, for a character class \<open>X\<close>; \<open>acc\<close> is the text matched so far.\<close>

fun star :: "(char \<Rightarrow> bool) \<Rightarrow> string \<Rightarrow> string \<Rightarrow> (string \<Rightarrow> string \<Rightarrow> 'a option)
    \<Rightarrow> 'a option" where
  "star P acc [] k = k acc []"
| "star P acc (c # cs) k =
     (if P c
      then (case star P (acc @ [c]) cs k of Some r \<Rightarrow> Some r | None \<Rightarrow> k acc (c # cs))
      else k acc (c # cs))"

text \<open>\<open>X+\<close>, greedy.\<close>

definition plus_re :: "(char \<Rightarrow> bool) \<Rightarrow> string \<Rightarrow> (string \<Rightarrow> string \<Rightarrow> 'a option)
    \<Rightarrow> 'a option" where
  "plus_re P s k = (case s of [] \<Rightarrow> None | c # cs \<Rightarrow> if P c then star P [c] cs k else None)"

text \<open>A literal.\<close>

definition lit :: "string \<Rightarrow> string \<Rightarrow> (string \<Rightarrow> 'a option) \<Rightarrow> 'a option" where
  "lit w s k = (if prefix w s then k (drop (length w) s) else None)"

text \<open>\<open>$\<close> without MULTILINE: the end of the string, or just before a final newline.\<close>

definition eol :: "string \<Rightarrow> bool" where
  "eol s = (s = [] \<or> s = [newline])"

text \<open>\<open>(?:(?P<comment>#.*))?\<close>: the group is tried first, then skipped.\<close>

definition opt_comment :: "string \<Rightarrow> (string option \<Rightarrow> string \<Rightarrow> 'a option) \<Rightarrow> 'a option" where
  "opt_comment s k =
     (case (case s of [] \<Rightarrow> None
            | c # cs \<Rightarrow> if c = CHR ''#'' then star dot [c] cs (\<lambda>m rest. k (Some m) rest)
                       else None) of
        Some r \<Rightarrow> Some r
      | None \<Rightarrow> k None s)"

text \<open>The groups \<open>(package, version, comment)\<close> of \<open>RE_DEPENDENCY.match(line)\<close>.\<close>

definition RE_DEPENDENCY :: "string \<Rightarrow> (string \<times> string \<times> string option) option" where
  "RE_DEPENDENCY line =
     plus_re dot line (\<lambda>package s1.
       lit ''=='' s1 (\<lambda>s2.
         plus_re not_space s2 (\<lambda>version s3.
           star space [] s3 (\<lambda>_ s4.
             opt_comment s4 (\<lambda>comment s5.
               if eol s5 then Some (package, version, comment) else None)))))"

section \<open>Dependency (pipcompilemulti.py)\<close>

text \<open>
  An invalid \<open>Dependency\<close> object has no other attribute than \<open>valid\<close>; the record
  holds empty strings there, and no function reads them.
\<close>

record Dependency =
  valid :: bool
  package :: string
  version :: string
  comment :: string

definition COMMENT_JUSTIFICATION :: nat where
  "COMMENT_JUSTIFICATION = 26"

text \<open>\<open>Dependency.__init__\<close>\<close>

definition Dependency_init :: "string \<Rightarrow> Dependency" where
  "Dependency_init line =
     (case RE_DEPENDENCY line of
        Some (p, v, c) \<Rightarrow>
          \<lparr>valid = True, package = p, version = strip v,
           comment = strip (case c of None \<Rightarrow> [] | Some t \<Rightarrow> t)\<rparr>
      | None \<Rightarrow> \<lparr>valid = False, package = [], version = [], comment = []\<rparr>)"

text \<open>
  \<open>is_compatible\<close> reads \<open>OPTIONS['compatible_patterns']\<close>, here \<open>patterns\<close>, and calls
  the standard library's \<open>fnmatch\<close>, here the parameter \<open>fnmatch\<close>.
\<close>

definition is_compatible :: "(string \<Rightarrow> string \<Rightarrow> bool) \<Rightarrow> string list \<Rightarrow> Dependency \<Rightarrow> bool" where
  "is_compatible fnmatch patterns dep =
     list_ex (\<lambda>pattern. fnmatch (lower (package dep)) pattern) patterns"

text \<open>\<open>RE_EDITABLE_FLAG.sub('', line)\<close> with the pattern \<^verbatim>\<open>^-e \<close>.\<close>

definition without_editable :: "string \<Rightarrow> string" where
  "without_editable line = (if prefix ''-e '' line then drop 3 line else line)"

definition serialize :: "(string \<Rightarrow> string \<Rightarrow> bool) \<Rightarrow> string list \<Rightarrow> Dependency \<Rightarrow> string" where
  "serialize fnmatch patterns dep =
     (let equal = (if is_compatible fnmatch patterns dep then ''~='' else ''=='');
          package_version = without_editable (package dep) @ equal @ version dep @ ''  ''
      in rstrip (ljust COMMENT_JUSTIFICATION package_version @ comment dep))"

definition drop_post :: "Dependency \<Rightarrow> Dependency" where
  "drop_post dep =
     (let post_index = find (version dep) ''.post''
      in if post_index \<ge> 0 then dep\<lparr>version := take (nat post_index) (version dep)\<rparr>
         else dep)"

section \<open>Environment (pipcompilemulti.py)\<close>

record Environment =
  env_name :: string
  ignore :: "string set"
  allow_post :: bool
  packages :: "string set"

definition PY3_IGNORE :: "string set" where
  "PY3_IGNORE = {''future'', ''futures''}"

text \<open>
  \<open>Environment.__init__\<close>; \<open>py_major\<close> is \<open>sys.version_info[0]\<close>, and the argument
  \<open>ignore\<close> is \<open>None\<close> or a collection of names.
\<close>

definition Environment_init :: "nat \<Rightarrow> string \<Rightarrow> string set option \<Rightarrow> bool \<Rightarrow> Environment" where
  "Environment_init py_major nm ign post =
     (let ignore0 = (case ign of None \<Rightarrow> {} | Some s \<Rightarrow> s);
          ignore1 = (if py_major \<ge> 3 then ignore0 \<union> PY3_IGNORE else ignore0)
      in \<lparr>env_name = nm, ignore = ignore1, allow_post = post, packages = {}\<rparr>)"

text \<open>\<open>fix_pin\<close> returns the line to write, or \<open>None\<close>, and the updated environment.\<close>

definition fix_pin :: "(string \<Rightarrow> string \<Rightarrow> bool) \<Rightarrow> string list \<Rightarrow> Environment \<Rightarrow> string
    \<Rightarrow> string option \<times> Environment" where
  "fix_pin fnmatch patterns env line =
     (let dep = Dependency_init line
      in if valid dep then
           (if package dep \<in> ignore env then (None, env)
            else (let env' = env\<lparr>packages := insert (package dep) (packages env)\<rparr>;
                      dep' = (if \<not> allow_post env \<or> is_compatible fnmatch patterns dep
                              then drop_post dep else dep)
                  in (Some (serialize fnmatch patterns dep'), env')))
         else (Some (strip line), env))"

text \<open>
  \<open>fix_lockfile\<close> on the lines read from the output file: the lines written back, and
  the environment after all of them.
\<close>

fun fix_pins :: "(string \<Rightarrow> string \<Rightarrow> bool) \<Rightarrow> string list \<Rightarrow> Environment \<Rightarrow> string list
    \<Rightarrow> string option list \<times> Environment" where
  "fix_pins fnmatch patterns env [] = ([], env)"
| "fix_pins fnmatch patterns env (line # rest) =
     (let (r, env') = fix_pin fnmatch patterns env line;
          (rs, env'') = fix_pins fnmatch patterns env' rest
      in (r # rs, env''))"

definition fix_lockfile :: "(string \<Rightarrow> string \<Rightarrow> bool) \<Rightarrow> string list \<Rightarrow> Environment \<Rightarrow> string list
    \<Rightarrow> string list \<times> Environment" where
  "fix_lockfile fnmatch patterns env fp =
     (let (lines, env') = fix_pins fnmatch patterns env fp
      in (concat (map (\<lambda>line. case line of None \<Rightarrow> [] | Some l \<Rightarrow> [l @ [newline]]) lines),
          env'))"

section \<open>Exceptions\<close>

datatype error =
  RuntimeError string
  | KeyError string
  | RecursionError
  | CircularDependencyError
  | AttributeError string
  | IOError string

section \<open>Environment (pipcompilemulti/environment.py)\<close>

text \<open>
  The environment of the package keeps mappings where the single-file module keeps sets:
  \<open>ignore_d\<close> is \<open>self.ignore\<close>, from a package to its recorded version or \<open>None\<close>, and
  \<open>packages_d\<close> is \<open>self.packages\<close>, from a package to its version.
\<close>

record environment =
  in_path :: string
  ignore_d :: "string \<rightharpoonup> string option"
  packages_d :: "string \<rightharpoonup> string"

text \<open>The record that \<open>logger.error\<close> writes before the conflict is raised.\<close>

definition conflict_message :: "string \<Rightarrow> string \<Rightarrow> string \<Rightarrow> string" where
  "conflict_message pkg ver ignored_version =
     ''Package '' @ pkg @ '' was resolved to different versions in different environments: ''
       @ ver @ '' and '' @ ignored_version"

definition conflict_error :: error where
  "conflict_error = RuntimeError ''Please add constraints for the package version listed above''"

text \<open>
  \<open>Environment.fix_pin\<close> of environment.py. The module \<open>dependency\<close> is imported, so
  its constructor \<open>Dep\<close> and its methods \<open>drop_post_in\<close> (which takes the input path) and
  \<open>serialize_d\<close> are parameters. A failure is the list of records logged at level error
  and the exception raised.
\<close>

definition fix_pin_d :: "(string \<Rightarrow> Dependency) \<Rightarrow> (string \<Rightarrow> Dependency \<Rightarrow> Dependency)
    \<Rightarrow> (Dependency \<Rightarrow> string) \<Rightarrow> environment \<Rightarrow> string
    \<Rightarrow> (string list \<times> error) + (string option \<times> environment)" where
  "fix_pin_d Dep drop_post_in serialize_d env line =
     (let dep = Dep line
      in if valid dep then
           (case ignore_d env (package dep) of
              Some ignored_version \<Rightarrow>
                (case ignored_version of
                   Some iv \<Rightarrow>
                     if version dep \<noteq> [] \<and> version dep \<noteq> iv
                     then Inl ([conflict_message (package dep) (version dep) iv], conflict_error)
                     else Inr (None, env)
                 | None \<Rightarrow> Inr (None, env))
            | None \<Rightarrow>
                Inr (Some (serialize_d (drop_post_in (in_path env) dep)),
                     env\<lparr>packages_d := (packages_d env)(package dep \<mapsto> version dep)\<rparr>))
         else Inr (Some (strip line), env))"

definition join :: "string \<Rightarrow> string list \<Rightarrow> string" where
  "join sep parts = (case parts of [] \<Rightarrow> [] | p # ps \<Rightarrow> p @ concat (map (\<lambda>q. sep @ q) ps))"

definition backslash :: char where
  "backslash = CHR 0x5C"

text \<open>
  \<open>concatenated\<close> is a generator: the lines it yields, and the exception it raises after
  the last of them, if any.
\<close>

fun concatenated_from :: "string list \<Rightarrow> string list \<Rightarrow> string list \<times> error option" where
  "concatenated_from line_parts [] =
     ([], if line_parts \<noteq> [] then Some (RuntimeError (''Compiled file ends with backslash '' @ [backslash]))
          else None)"
| "concatenated_from line_parts (l # fp) =
     (let line = strip l
      in if suffix [backslash] line
         then concatenated_from (line_parts @ [rstrip (butlast line)]) fp
         else (let (out, e) = concatenated_from [] fp
               in (join '' '' (line_parts @ [line]) # out, e)))"

definition concatenated :: "string list \<Rightarrow> string list \<times> error option" where
  "concatenated fp = concatenated_from [] fp"

text \<open>The list comprehension of \<open>fix_lockfile\<close>: the first failing line ends it.\<close>

fun fix_pins_d :: "(string \<Rightarrow> Dependency) \<Rightarrow> (string \<Rightarrow> Dependency \<Rightarrow> Dependency)
    \<Rightarrow> (Dependency \<Rightarrow> string) \<Rightarrow> environment \<Rightarrow> string list
    \<Rightarrow> (string list \<times> error) + (string option list \<times> environment)" where
  "fix_pins_d Dep drop_post_in serialize_d env [] = Inr ([], env)"
| "fix_pins_d Dep drop_post_in serialize_d env (line # rest) =
     (case fix_pin_d Dep drop_post_in serialize_d env line of
        Inl e \<Rightarrow> Inl e
      | Inr (r, env') \<Rightarrow>
          (case fix_pins_d Dep drop_post_in serialize_d env' rest of
             Inl e \<Rightarrow> Inl e
           | Inr (rs, env'') \<Rightarrow> Inr (r # rs, env'')))"

text \<open>
  \<open>fix_lockfile\<close> of environment.py on the lines of the output file: the lines written
  back and the environment whose packages are registered, or the failure; nothing is
  written after a failure.
\<close>

definition fix_lockfile_d :: "(string \<Rightarrow> Dependency) \<Rightarrow> (string \<Rightarrow> Dependency \<Rightarrow> Dependency)
    \<Rightarrow> (Dependency \<Rightarrow> string) \<Rightarrow> environment \<Rightarrow> string list
    \<Rightarrow> (string list \<times> error) + (string list \<times> environment)" where
  "fix_lockfile_d Dep drop_post_in serialize_d env fp =
     (let (logical, raised) = concatenated fp
      in case fix_pins_d Dep drop_post_in serialize_d env logical of
           Inl e \<Rightarrow> Inl e
         | Inr (lines, env') \<Rightarrow>
             (case raised of
                Some e \<Rightarrow> Inl ([], e)
              | None \<Rightarrow>
                  Inr (concat (map (\<lambda>line. case line of None \<Rightarrow> [] | Some l \<Rightarrow> [l @ [newline]])
                         lines), env')))"

section \<open>Header and body of an output file\<close>

definition DEFAULT_HEADER :: string where
  "DEFAULT_HEADER =
     ''#\<newline># This file is autogenerated by pip-compile-multi\<newline># To update, run:\<newline>#\<newline>#    pip-compile-multi\<newline>#\<newline>''"

definition carriage_return :: char where
  "carriage_return = CHR 0x0D"

text \<open>
  A file opened with mode \<open>rt\<close> is read with universal newlines: \<open>\r\n\<close> and \<open>\r\<close>
  arrive as \<open>\n\<close>. Writing leaves the text as it is.
\<close>

fun universal_newlines :: "string \<Rightarrow> string" where
  "universal_newlines [] = []"
| "universal_newlines [c] = (if c = carriage_return then [newline] else [c])"
| "universal_newlines (c # d # ds) =
     (if c = carriage_return
      then (if d = newline then newline # universal_newlines ds
            else newline # universal_newlines (d # ds))
      else c # universal_newlines (d # ds))"

text \<open>Iterating over a file yields its lines, each with its terminator.\<close>

fun readlines :: "string \<Rightarrow> string list" where
  "readlines [] = []"
| "readlines (c # cs) =
     (if c = newline then [c] # readlines cs
      else (case readlines cs of [] \<Rightarrow> [[c]] | l # ls \<Rightarrow> (c # l) # ls))"

definition open_rt :: "string \<Rightarrow> string list" where
  "open_rt content = readlines (universal_newlines content)"

definition split_header :: "string list \<Rightarrow> string list \<times> string list" where
  "split_header fp =
     (let (body_start, header_ended, lines) =
            fold (\<lambda>line (body_start, header_ended, lines).
                    if startswith line ''#'' \<and> \<not> header_ended
                    then (body_start + 1, header_ended, lines @ [line])
                    else (body_start, True, lines @ [line]))
                 fp (0 :: nat, False, [])
      in (take body_start lines, drop body_start lines))"

text \<open>\<open>replace_header\<close>: the new content of the output file, from the old one.\<close>

definition replace_header :: "string \<Rightarrow> string \<Rightarrow> string" where
  "replace_header header_text content =
     (let (_, body) = split_header (open_rt content)
      in header_text @ concat body)"

section \<open>References between environments\<close>

text \<open>An environment as \<open>discover\<close> returns it: a dictionary with a name and references.\<close>

record conf =
  name :: string
  refs :: "string list"

text \<open>
  A dictionary is an association list in insertion order; assigning an existing key keeps
  its place. \<open>refs_by_name\<close> is the comprehension
  \<^verbatim>\<open>{env['name']: set(env['refs']) for env in envs}\<close> of \<open>recursive_refs\<close>, which
  \<open>order_by_refs\<close> repeats as \<open>topology\<close>.
\<close>

definition refs_by_name :: "conf list \<Rightarrow> (string \<times> string set) list" where
  "refs_by_name envs = fold (\<lambda>env d. AList.update (name env) (set (refs env)) d) envs []"

text \<open>A list of results, as a comprehension computes it: the first exception ends it.\<close>

fun collect :: "(error + 'a) list \<Rightarrow> error + 'a list" where
  "collect [] = Inr []"
| "collect (Inl e # rs) = Inl e"
| "collect (Inr x # rs) = (case collect rs of Inl e \<Rightarrow> Inl e | Inr xs \<Rightarrow> Inr (x # xs))"

text \<open>
  \<open>recursive_refs\<close>. The function calls itself without a bound of its own; the
  interpreter allows \<open>depth\<close> nested calls and raises \<open>RecursionError\<close> beyond. A set is
  iterated in an order that Python leaves open: here the sorted one.
\<close>

fun recursive_refs :: "nat \<Rightarrow> conf list \<Rightarrow> string \<Rightarrow> error + string set" where
  "recursive_refs 0 envs nm = Inl RecursionError"
| "recursive_refs (Suc depth) envs nm =
     (case map_of (refs_by_name envs) nm of
        None \<Rightarrow> Inl (KeyError nm)
      | Some rs \<Rightarrow>
          if rs \<noteq> {} then
            (case collect (map (recursive_refs depth envs) (sorted_list_of_set rs)) of
               Inl e \<Rightarrow> Inl e
             | Inr indirect_refs \<Rightarrow> Inr (rs \<union> \<Union> (set indirect_refs)))
          else Inr (rs \<union> {}))"

text \<open>The edges of the reference graph: from a name to each of its references.\<close>

definition ref_graph :: "conf list \<Rightarrow> (string \<times> string) set" where
  "ref_graph envs = {(n, r). \<exists>rs. map_of (refs_by_name envs) n = Some rs \<and> r \<in> rs}"

text \<open>Every reference names an environment of the list.\<close>

definition closed_refs :: "conf list \<Rightarrow> bool" where
  "closed_refs envs =
     list_all (\<lambda>env. list_all (\<lambda>r. r \<in> set (map name envs)) (refs env)) envs"

section \<open>Topological order\<close>

text \<open>
  Modelled from the spec: the loop of \<open>toposort\<close> in the imported package of that
  name, which is not under src/. The spec asks for a Kahn sort over the map from names to references
  that aborts on a cycle; the model follows the package: self references are dropped,
  referenced names that are no key become keys without references, then the keys
  without references are taken out as one layer, sorted, until none is left.
\<close>

function toposort_layers :: "(string \<times> string set) list \<Rightarrow> error + string set list" where
  "toposort_layers data =
     (let ordered = set (map fst (filter (\<lambda>(item, dep). dep = {}) data))
      in if ordered = {} then (if data \<noteq> [] then Inl CircularDependencyError else Inr [])
         else (case toposort_layers
                      (map (\<lambda>(item, dep). (item, dep - ordered))
                         (filter (\<lambda>(item, dep). item \<notin> ordered) data)) of
                 Inl e \<Rightarrow> Inl e
               | Inr layers \<Rightarrow> Inr (ordered # layers)))"
  by pat_completeness auto
termination
proof (relation "measure length")
  show "wf (measure length)" by simp
next
  fix data :: "(string \<times> string set) list" and ordered
  assume o: "ordered = set (map fst (filter (\<lambda>(item, dep). dep = {}) data))"
    and ne: "ordered \<noteq> {}"
  from ne obtain x where x: "x \<in> ordered" by blast
  with o obtain p where p: "p \<in> set data" "fst p = x"
    by auto
  have "\<not> (case p of (item, dep) \<Rightarrow> item \<notin> ordered)"
    using p x by (simp add: case_prod_beta)
  with p(1) have "length (filter (\<lambda>(item, dep). item \<notin> ordered) data) < length data"
    by (rule length_filter_less)
  then show "(map (\<lambda>(item, dep). (item, dep - ordered))
                (filter (\<lambda>(item, dep). item \<notin> ordered) data), data) \<in> measure length"
    by simp
qed

declare toposort_layers.simps [simp del]

text \<open>
  Modelled from the spec: \<open>toposort\<close> of the same package, the preparation of the
  dictionary before the layers are taken.
\<close>

definition toposort :: "(string \<times> string set) list \<Rightarrow> error + string set list" where
  "toposort data =
     (if data = [] then Inr []
      else (let data1 = map (\<lambda>(k, v). (k, v - {k})) data;
                extra_items_in_deps = \<Union> (set (map snd data1)) - set (map fst data1);
                data2 = data1 @ map (\<lambda>item. (item, {})) (sorted_list_of_set extra_items_in_deps)
            in toposort_layers data2))"

text \<open>
  Modelled from the spec: \<open>toposort_flatten\<close>, the layers one after the other, each
  sorted.
\<close>

definition toposort_flatten :: "(string \<times> string set) list \<Rightarrow> error + string list" where
  "toposort_flatten data =
     (case toposort data of
        Inl e \<Rightarrow> Inl e
      | Inr layers \<Rightarrow> Inr (concat (map sorted_list_of_set layers)))"

text \<open>The edges of a dictionary from items to sets of items.\<close>

definition edges :: "(string \<times> string set) list \<Rightarrow> (string \<times> string) set" where
  "edges data = {(k, r). \<exists>dep. (k, dep) \<in> set data \<and> r \<in> dep}"

text \<open>\<open>by_name[name]\<close>\<close>

definition getitem :: "(string \<times> 'a) list \<Rightarrow> string \<Rightarrow> error + 'a" where
  "getitem d k = (case map_of d k of None \<Rightarrow> Inl (KeyError k) | Some v \<Rightarrow> Inr v)"

definition order_by_refs :: "conf list \<Rightarrow> error + conf list" where
  "order_by_refs envs =
     (let topology = refs_by_name envs;
          by_name = fold (\<lambda>env d. AList.update (name env) env d) envs []
      in case toposort_flatten topology of
           Inl e \<Rightarrow> Inl e
         | Inr names \<Rightarrow> collect (map (getitem by_name) names))"

section \<open>Consistency check\<close>

text \<open>\<open>bytes.strip\<close> removes the ASCII white space.\<close>

definition isspace_bytes :: "char \<Rightarrow> bool" where
  "isspace_bytes c = (c \<in> {CHR '' '', CHR 0x09, CHR 0x0A, CHR 0x0D, CHR 0x0B, CHR 0x0C})"

definition strip_bytes :: "string \<Rightarrow> string" where
  "strip_bytes s = rev (dropWhile isspace_bytes (rev (dropWhile isspace_bytes s)))"

definition IN_EXT :: string where
  "IN_EXT = ''.in''"

definition OUT_EXT :: string where
  "OUT_EXT = ''.txt''"

text \<open>\<open>os.path.join\<close> of two components, on POSIX.\<close>

definition path_join :: "string \<Rightarrow> string \<Rightarrow> string" where
  "path_join a b =
     (if startswith b ''/'' then b
      else if a = [] \<or> suffix ''/'' a then a @ b
      else a @ ''/'' @ b)"

text \<open>\<open>base_dir\<close> is \<open>OPTIONS['base_dir']\<close>.\<close>

definition infile :: "string \<Rightarrow> Environment \<Rightarrow> string" where
  "infile base_dir env = path_join base_dir (env_name env @ IN_EXT)"

definition outfile :: "string \<Rightarrow> Environment \<Rightarrow> string" where
  "outfile base_dir env = path_join base_dir (env_name env @ OUT_EXT)"

text \<open>
  The files are a map from paths to contents; opening a path that is not there raises
  \<open>IOError\<close>. \<open>sha1\<close> is the hexadecimal digest of \<open>hashlib.sha1\<close>.
\<close>

definition generate_hash_comment :: "(string \<Rightarrow> string) \<Rightarrow> (string \<rightharpoonup> string) \<Rightarrow> string
    \<Rightarrow> error + string" where
  "generate_hash_comment sha1 files file_path =
     (case files file_path of
        None \<Rightarrow> Inl (IOError file_path)
      | Some content \<Rightarrow> Inr (''# SHA1:'' @ sha1 (strip_bytes content) @ [newline]))"

definition parse_hash_comment :: "(string \<rightharpoonup> string) \<Rightarrow> string \<Rightarrow> error + string option" where
  "parse_hash_comment files file_path =
     (case files file_path of
        None \<Rightarrow> Inl (IOError file_path)
      | Some content \<Rightarrow> Inr (List.find (\<lambda>line. startswith line ''# SHA1:'') (open_rt content)))"

datatype level = INFO | ERROR

text \<open>
  The loop of \<open>verify\<close> over the environments: the records logged, and the value of
  \<open>success\<close> after the last environment or the exception that ended the loop.
  \<open>existing_comment.strip()\<close> raises \<open>AttributeError\<close> when \<open>existing_comment\<close> is
  \<open>None\<close>.
\<close>

fun verify_loop :: "nat \<Rightarrow> (string \<Rightarrow> string) \<Rightarrow> string \<Rightarrow> (string \<rightharpoonup> string) \<Rightarrow> conf list
    \<Rightarrow> bool \<Rightarrow> (level \<times> string) list \<Rightarrow> (level \<times> string) list \<times> (error + bool)" where
  "verify_loop py_major sha1 base_dir files [] success log = (log, Inr success)"
| "verify_loop py_major sha1 base_dir files (conf # env_confs) success log =
     (let env = Environment_init py_major (name conf) None False;
          log1 = log @ [(INFO, ''Verifying that '' @ outfile base_dir env @
                   '' was generated from '' @ infile base_dir env @ ''.'')]
      in case generate_hash_comment sha1 files (infile base_dir env) of
           Inl e \<Rightarrow> (log1, Inl e)
         | Inr current_comment \<Rightarrow>
             (case parse_hash_comment files (outfile base_dir env) of
                Inl e \<Rightarrow> (log1, Inl e)
              | Inr existing_comment \<Rightarrow>
                  if Some current_comment = existing_comment
                  then verify_loop py_major sha1 base_dir files env_confs success
                         (log1 @ [(INFO, ''Success - comments match.'')])
                  else (let log2 = log1 @ [(ERROR, ''FAILURE!''),
                                  (ERROR, ''Expecting: '' @ strip current_comment)]
                        in case existing_comment of
                             None \<Rightarrow>
                               (log2, Inl (AttributeError ''NoneType object has no attribute strip''))
                           | Some found \<Rightarrow>
                               verify_loop py_major sha1 base_dir files env_confs False
                                 (log2 @ [(ERROR, ''Found:     '' @ strip found)]))))"

text \<open>
  \<open>verify\<close> on the environments that \<open>discover\<close> returned: the records logged, and the
  exit status, \<open>1\<close> after \<open>ctx.exit(1)\<close>, or the exception that ended the command.
\<close>

definition verify :: "nat \<Rightarrow> (string \<Rightarrow> string) \<Rightarrow> string \<Rightarrow> (string \<rightharpoonup> string) \<Rightarrow> conf list
    \<Rightarrow> (level \<times> string) list \<times> (error + nat)" where
  "verify py_major sha1 base_dir files env_confs =
     (case verify_loop py_major sha1 base_dir files env_confs True [] of
        (log, Inl e) \<Rightarrow> (log, Inl e)
      | (log, Inr success) \<Rightarrow> (log, Inr (if \<not> success then 1 else 0)))"

text \<open>
  The shape of the lines that come from one text: none is empty, a newline is the last
  character of a line or not in it, and every line but the last ends with one.
\<close>

fun lines_ok :: "string list \<Rightarrow> bool" where
  "lines_ok [] = True"
| "lines_ok [l] = (l \<noteq> [] \<and> newline \<notin> set (butlast l))"
| "lines_ok (l # l' # ls) =
     (l \<noteq> [] \<and> newline \<notin> set (butlast l) \<and> last l = newline \<and> lines_ok (l' # ls))"

text \<open>The lines that \<open>fix_lockfile\<close> passes to \<open>writelines\<close>, from the results of \<open>fix_pin\<close>.\<close>

definition written :: "string option list \<Rightarrow> string list" where
  "written ls = concat (map (\<lambda>line. case line of None \<Rightarrow> [] | Some l \<Rightarrow> [l @ [newline]]) ls)"

section \<open>Lines of a lockfile (pipcompilemulti.py)\<close>

lemma fix_pin_ignore: "ignore (snd (fix_pin f p env l)) = ignore env"
  by (simp add: fix_pin_def Let_def)

lemma fix_pin_invalid: "\<not> valid (Dependency_init l) \<Longrightarrow> fix_pin f p env l = (Some (strip l), env)"
  by (simp add: fix_pin_def Let_def)

lemma fix_pin_ignored: "valid (Dependency_init l) \<Longrightarrow> package (Dependency_init l) \<in> ignore env \<Longrightarrow> fix_pin f p env l = (None, env)"
  by (simp add: fix_pin_def Let_def)

lemma fix_pin_packages:
  "packages (snd (fix_pin f p env l)) \<subseteq> packages env \<union> (UNIV - ignore env)"
  by (auto simp add: fix_pin_def Let_def)

lemma fix_pins_ignore: "ignore (snd (fix_pins f p env fp)) = ignore env"
proof (induction fp arbitrary: env)
  case Nil
  then show ?case by simp
next
  case (Cons l fp)
  show ?case
    using Cons.IH[of "snd (fix_pin f p env l)"] fix_pin_ignore[of f p env l]
    by (simp add: split_beta Let_def)
qed

lemma fix_pins_packages:
  "packages (snd (fix_pins f p env fp)) \<subseteq> packages env \<union> (UNIV - ignore env)"
proof (induction fp arbitrary: env)
  case Nil
  then show ?case by simp
next
  case (Cons l fp)
  show ?case
    using Cons.IH[of "snd (fix_pin f p env l)"] fix_pin_ignore[of f p env l]
      fix_pin_packages[of f p env l]
    by (auto simp add: split_beta Let_def)
qed

lemma fix_lockfile_Cons:
  "fix_lockfile f p env (l # fp) =
     ((case fst (fix_pin f p env l) of None \<Rightarrow> [] | Some t \<Rightarrow> [t @ [newline]])
        @ fst (fix_lockfile f p (snd (fix_pin f p env l)) fp),
      snd (fix_lockfile f p (snd (fix_pin f p env l)) fp))"
  by (simp add: fix_lockfile_def split_beta)

lemma fix_lockfile_packages:
  "packages (snd (fix_lockfile f p env fp)) \<subseteq> packages env \<union> (UNIV - ignore env)"
  using fix_pins_packages[of f p env fp] by (simp add: fix_lockfile_def split_beta)

lemma fix_lockfile_filter:
  "S \<subseteq> ignore env \<Longrightarrow>
   fix_lockfile f p env fp =
   fix_lockfile f p env
     (filter (\<lambda>l. \<not> (valid (Dependency_init l) \<and> package (Dependency_init l) \<in> S)) fp)"
proof (induction fp arbitrary: env)
  case Nil
  then show ?case by simp
next
  case (Cons l fp)
  let ?keep = "\<lambda>l. \<not> (valid (Dependency_init l) \<and> package (Dependency_init l) \<in> S)"
  show ?case
  proof (cases "?keep l")
    case False
    with Cons.prems have "fix_pin f p env l = (None, env)"
      by (auto simp add: fix_pin_ignored)
    then have "fix_lockfile f p env (l # fp) = fix_lockfile f p env fp"
      by (simp add: fix_lockfile_Cons)
    with False Cons.IH[OF Cons.prems] show ?thesis by simp
  next
    case True
    have "S \<subseteq> ignore (snd (fix_pin f p env l))"
      using Cons.prems by (simp add: fix_pin_ignore)
    then have "fix_lockfile f p (snd (fix_pin f p env l)) fp =
        fix_lockfile f p (snd (fix_pin f p env l)) (filter ?keep fp)"
      by (rule Cons.IH)
    then have "fix_lockfile f p env (l # fp) = fix_lockfile f p env (l # filter ?keep fp)"
      by (simp only: fix_lockfile_Cons)
    with True show ?thesis by simp
  qed
qed

lemma fix_pin_d_invalid:
  "\<not> valid (Dep l) \<Longrightarrow> fix_pin_d Dep dp ser env l = Inr (Some (strip l), env)"
  by (simp add: fix_pin_d_def Let_def)

text \<open>
  C8 (amended). A line that does not match the dependency pattern is returned with
  the white space at both of its ends removed, by \<open>fix_pin\<close> of either module, and the
  environment, with its packages, is as before.
\<close>

theorem fix_pin_unmatched_line:
  "(\<not> valid (Dependency_init line) \<longrightarrow>
      fix_pin fnmatch patterns env line = (Some (strip line), env)) \<and>
   (\<not> valid (Dep line) \<longrightarrow>
      fix_pin_d Dep drop_post_in serialize_d env_d line = Inr (Some (strip line), env_d))"
  by (simp add: fix_pin_invalid fix_pin_d_invalid)

lemma via_line_invalid: "\<not> valid (Dependency_init (''    # via flask'' @ [newline]))"
  by code_simp

lemma via_line_strip: "strip (''    # via flask'' @ [newline]) = ''# via flask''"
  by code_simp

lemma via_line_rstrip: "rstrip (''    # via flask'' @ [newline]) = ''    # via flask''"
  by code_simp

theorem fix_pin_unmatched_line_witness:
  "\<not> valid (Dependency_init (''    # via flask'' @ [newline])) \<and>
   fix_pin (\<lambda>name pat. False) [] (Environment_init 3 ''base'' None False)
     (''    # via flask'' @ [newline])
   = (Some ''# via flask'', Environment_init 3 ''base'' None False) \<and>
   fix_pin_d Dependency_init (\<lambda>path. drop_post) (serialize (\<lambda>name pat. False) [])
     \<lparr>in_path = ''requirements/base.in'', ignore_d = Map.empty, packages_d = Map.empty\<rparr>
     (''    # via flask'' @ [newline])
   = Inr (Some ''# via flask'',
       \<lparr>in_path = ''requirements/base.in'', ignore_d = Map.empty, packages_d = Map.empty\<rparr>)"
  using fix_pin_unmatched_line[of "''    # via flask'' @ [newline]" "\<lambda>name pat. False" "[]"
      "Environment_init 3 ''base'' None False" Dependency_init "\<lambda>path. drop_post"
      "serialize (\<lambda>name pat. False) []"
      "\<lparr>in_path = ''requirements/base.in'', ignore_d = Map.empty, packages_d = Map.empty\<rparr>"]
    via_line_invalid via_line_strip
  by simp

text \<open>
  C8 as stated fails: the indented comment line \<open>"    # via flask\n"\<close> does not
  match the pattern, and \<open>fix_pin\<close> returns \<open>"# via flask"\<close>, without its leading
  spaces, where trimming the trailing white space alone gives \<open>"    # via flask"\<close>.
\<close>

theorem fix_pin_unmatched_line_counterexample:
  "\<not> valid (Dependency_init (''    # via flask'' @ [newline])) \<and>
   fst (fix_pin (\<lambda>name pat. False) [] (Environment_init 3 ''base'' None False)
          (''    # via flask'' @ [newline]))
   \<noteq> Some (rstrip (''    # via flask'' @ [newline]))"
  using via_line_invalid via_line_strip via_line_rstrip
  by (simp add: fix_pin_invalid)

text \<open>
  C10. Under Python 3 the ignore set of every environment holds \<open>future\<close> and
  \<open>futures\<close>, whatever the argument \<open>ignore\<close> is. The lockfile written and the packages
  recorded are those of the resolver output without the lines that pin one of the two,
  and neither of them is among the recorded packages.
\<close>

theorem py3_ignore_dropped:
  assumes "3 \<le> py_major"
  shows "{''future'', ''futures''} \<subseteq> ignore (Environment_init py_major nm ign post) \<and>
    fix_lockfile fnmatch patterns (Environment_init py_major nm ign post) fp =
    fix_lockfile fnmatch patterns (Environment_init py_major nm ign post)
      (filter (\<lambda>line. \<not> (valid (Dependency_init line) \<and>
                 package (Dependency_init line) \<in> {''future'', ''futures''})) fp) \<and>
    packages (snd (fix_lockfile fnmatch patterns (Environment_init py_major nm ign post) fp))
      \<inter> {''future'', ''futures''} = {}"
proof -
  let ?env = "Environment_init py_major nm ign post"
  have ig: "{''future'', ''futures''} \<subseteq> ignore ?env"
    using assms by (simp add: Environment_init_def PY3_IGNORE_def Let_def)
  have pk: "packages ?env = {}"
    by (simp add: Environment_init_def Let_def)
  have "packages (snd (fix_lockfile fnmatch patterns ?env fp)) \<inter> ignore ?env = {}"
    using fix_lockfile_packages[of fnmatch patterns ?env fp] pk by auto
  with ig have "packages (snd (fix_lockfile fnmatch patterns ?env fp))
      \<inter> {''future'', ''futures''} = {}"
    by blast
  with ig fix_lockfile_filter[OF ig, of fnmatch patterns fp] show ?thesis
    by simp
qed

lemma future_line:
  "Dependency_init (''future==0.16.0             # via pkgA'' @ [newline]) =
     \<lparr>valid = True, package = ''future'', version = ''0.16.0'', comment = ''# via pkgA''\<rparr>"
  by code_simp

lemma six_line:
  "Dependency_init (''six==1.11.0'' @ [newline]) =
     \<lparr>valid = True, package = ''six'', version = ''1.11.0'', comment = []\<rparr>"
  by code_simp

theorem py3_ignore_dropped_witness:
  "(3::nat) \<le> 3 \<and>
   {''future'', ''futures''} \<subseteq> ignore (Environment_init 3 ''base'' None False) \<and>
   fix_lockfile (\<lambda>name pat. False) [] (Environment_init 3 ''base'' None False)
     [''future==0.16.0             # via pkgA'' @ [newline], ''six==1.11.0'' @ [newline]] =
   fix_lockfile (\<lambda>name pat. False) [] (Environment_init 3 ''base'' None False)
     [''six==1.11.0'' @ [newline]] \<and>
   packages (snd (fix_lockfile (\<lambda>name pat. False) [] (Environment_init 3 ''base'' None False)
     [''future==0.16.0             # via pkgA'' @ [newline], ''six==1.11.0'' @ [newline]]))
     \<inter> {''future'', ''futures''} = {}"
proof -
  let ?l1 = "''future==0.16.0             # via pkgA'' @ [newline]"
  let ?l2 = "''six==1.11.0'' @ [newline]"
  have f: "filter (\<lambda>line. \<not> (valid (Dependency_init line) \<and>
      package (Dependency_init line) \<in> {''future'', ''futures''})) [?l1, ?l2] = [?l2]"
    using future_line six_line by simp
  have le: "(3::nat) \<le> 3" by simp
  note t = py3_ignore_dropped[OF le, of "''base''" None False "\<lambda>name pat. False" "[]"
      "[?l1, ?l2]"]
  from t[unfolded f] le show ?thesis by blast
qed

section \<open>Lines of a lockfile (environment.py)\<close>

lemma written_append: "written (a @ b) = written a @ written b"
  by (simp add: written_def)

lemma written_None: "written (None # a) = written a"
  by (simp add: written_def)

lemma fix_pin_d_ignored:
  assumes "valid (Dep l)" and "ignore_d env (package (Dep l)) = Some iv"
    and "iv = None \<or> iv = Some (version (Dep l))"
  shows "fix_pin_d Dep dp ser env l = Inr (None, env)"
  using assms by (auto simp add: fix_pin_d_def Let_def)

lemma fix_pin_d_conflict:
  assumes "valid (Dep l)" and "ignore_d env (package (Dep l)) = Some (Some iv)"
    and "version (Dep l) \<noteq> []" and "version (Dep l) \<noteq> iv"
  shows "fix_pin_d Dep dp ser env l =
    Inl ([conflict_message (package (Dep l)) (version (Dep l)) iv], conflict_error)"
  using assms by (simp add: fix_pin_d_def Let_def)

lemma fix_pin_d_state:
  assumes "fix_pin_d Dep dp ser env l = Inr (r, env')"
  shows "ignore_d env' = ignore_d env \<and> in_path env' = in_path env \<and>
    (\<forall>pkg \<in> dom (ignore_d env). packages_d env' pkg = packages_d env pkg)"
  using assms
  by (auto simp add: fix_pin_d_def Let_def split: if_splits option.splits)

lemma fix_pins_d_state:
  assumes "fix_pins_d Dep dp ser env ls = Inr (rs, env')"
  shows "ignore_d env' = ignore_d env \<and> in_path env' = in_path env \<and>
    (\<forall>pkg \<in> dom (ignore_d env). packages_d env' pkg = packages_d env pkg)"
  using assms
proof (induction ls arbitrary: env rs)
  case Nil
  then show ?case by simp
next
  case (Cons l ls)
  from Cons.prems obtain r env1 where
    r: "fix_pin_d Dep dp ser env l = Inr (r, env1)"
    by (auto split: sum.splits)
  with Cons.prems obtain rs1 where
    rs: "fix_pins_d Dep dp ser env1 ls = Inr (rs1, env')"
    by (auto split: sum.splits)
  from fix_pin_d_state[OF r] Cons.IH[OF rs] show ?case by auto
qed

lemma fix_pins_d_append:
  "fix_pins_d Dep dp ser env (a @ b) =
     (case fix_pins_d Dep dp ser env a of
        Inl e \<Rightarrow> Inl e
      | Inr (ra, env1) \<Rightarrow>
          (case fix_pins_d Dep dp ser env1 b of
             Inl e \<Rightarrow> Inl e
           | Inr (rb, env2) \<Rightarrow> Inr (ra @ rb, env2)))"
proof (induction a arbitrary: env)
  case Nil
  then show ?case by (simp split: sum.splits)
next
  case (Cons l a)
  show ?case
  proof (cases "fix_pin_d Dep dp ser env l")
    case (Inl e)
    then show ?thesis by simp
  next
    case (Inr p)
    then show ?thesis
      by (cases p) (simp add: Cons.IH split: sum.splits prod.splits)
  qed
qed

lemma fix_pins_d_failing:
  assumes "l \<in> set ls"
    and "\<And>env'. ignore_d env' = ignore_d env \<Longrightarrow> isl (fix_pin_d Dep dp ser env' l)"
  shows "isl (fix_pins_d Dep dp ser env ls)"
  using assms
proof (induction ls arbitrary: env)
  case Nil
  then show ?case by simp
next
  case (Cons x ls)
  show ?case
  proof (cases "fix_pin_d Dep dp ser env x")
    case (Inl e)
    then show ?thesis by simp
  next
    case (Inr p)
    obtain r env1 where p: "p = (r, env1)" by (cases p)
    from Inr p fix_pin_d_state[of Dep dp ser env x r env1]
    have ig: "ignore_d env1 = ignore_d env" by simp
    have "x \<noteq> l"
      using Inr Cons.prems(2)[of env] by auto
    with Cons.prems(1) have "l \<in> set ls" by simp
    then have "isl (fix_pins_d Dep dp ser env1 ls)"
      using Cons.IH[of env1] Cons.prems(2) ig by simp
    with Inr p show ?thesis by (auto simp add: isl_def)
  qed
qed

lemma fix_pins_d_skip:
  assumes "valid (Dep l)" and "ignore_d env (package (Dep l)) = Some iv"
    and "iv = None \<or> iv = Some (version (Dep l))"
  shows "map_sum id (\<lambda>(rs, e). (written rs, e)) (fix_pins_d Dep dp ser env (pre @ l # post)) =
         map_sum id (\<lambda>(rs, e). (written rs, e)) (fix_pins_d Dep dp ser env (pre @ post))"
proof (cases "fix_pins_d Dep dp ser env pre")
  case (Inl e)
  then show ?thesis by (simp add: fix_pins_d_append)
next
  case (Inr p)
  obtain ra env1 where p: "p = (ra, env1)" by (cases p)
  from Inr p fix_pins_d_state[of Dep dp ser env pre ra env1]
  have "ignore_d env1 = ignore_d env" by simp
  with assms have "fix_pin_d Dep dp ser env1 l = Inr (None, env1)"
    by (simp add: fix_pin_d_ignored)
  with Inr p show ?thesis
    by (simp add: fix_pins_d_append written_append written_None split: sum.splits prod.splits)
qed

lemma fix_lockfile_d_alt:
  "fix_lockfile_d Dep dp ser env fp =
     (case map_sum id (\<lambda>(rs, e). (written rs, e))
             (fix_pins_d Dep dp ser env (fst (concatenated fp))) of
        Inl e \<Rightarrow> Inl e
      | Inr (out, env') \<Rightarrow>
          (case snd (concatenated fp) of Some e \<Rightarrow> Inl ([], e) | None \<Rightarrow> Inr (out, env')))"
  by (simp add: fix_lockfile_d_def written_def split_beta split: sum.splits option.splits)

lemma fix_lockfile_skip:
  assumes "valid (Dependency_init l)" and "package (Dependency_init l) \<in> ignore env"
  shows "fix_lockfile f p env (pre @ l # post) = fix_lockfile f p env (pre @ post)"
proof -
  let ?keep = "\<lambda>x. \<not> (valid (Dependency_init x) \<and>
      package (Dependency_init x) \<in> {package (Dependency_init l)})"
  have s: "{package (Dependency_init l)} \<subseteq> ignore env" using assms(2) by simp
  have "filter ?keep (pre @ l # post) = filter ?keep (pre @ post)"
    using assms(1) by simp
  then show ?thesis
    using fix_lockfile_filter[OF s, of f p "pre @ l # post"]
      fix_lockfile_filter[OF s, of f p "pre @ post"]
    by simp
qed

lemma fix_lockfile_d_of:
  assumes "concatenated fp = (ls, raised)"
  shows "fix_lockfile_d Dep dp ser env fp =
     (case map_sum id (\<lambda>(rs, e). (written rs, e)) (fix_pins_d Dep dp ser env ls) of
        Inl e \<Rightarrow> Inl e
      | Inr (out, env') \<Rightarrow>
          (case raised of Some e \<Rightarrow> Inl ([], e) | None \<Rightarrow> Inr (out, env')))"
  using assms by (simp add: fix_lockfile_d_alt split: sum.splits prod.splits)

lemma fix_lockfile_d_packages:
  assumes "fix_lockfile_d Dep dp ser env fp = Inr (out, env')"
    and "pkg \<in> dom (ignore_d env)"
  shows "packages_d env' pkg = packages_d env pkg"
proof -
  from assms(1) obtain rs where "fix_pins_d Dep dp ser env (fst (concatenated fp)) = Inr (rs, env')"
    by (auto simp add: fix_lockfile_d_def split_beta split: sum.splits option.splits)
  from fix_pins_d_state[OF this] assms(2) show ?thesis by simp
qed

lemma sublist_conflict_message:
  "sublist pkg (conflict_message pkg ver iv) \<and> sublist ver (conflict_message pkg ver iv) \<and>
   sublist iv (conflict_message pkg ver iv)"
proof -
  have "sublist pkg (''Package '' @ pkg @
      ('' was resolved to different versions in different environments: '' @ ver @ '' and '' @ iv))"
    unfolding sublist_def by blast
  moreover have "sublist ver ((''Package '' @ pkg @
      '' was resolved to different versions in different environments: '') @ ver @ ('' and '' @ iv))"
    unfolding sublist_def by blast
  moreover have "sublist iv ((''Package '' @ pkg @
      '' was resolved to different versions in different environments: '' @ ver @ '' and '') @ iv @ [])"
    unfolding sublist_def by blast
  ultimately show ?thesis by (simp add: conflict_message_def)
qed

text \<open>
  C2. A line whose package is a key of the ignore mapping, with no recorded version or
  with the version of the line, makes \<open>fix_pin\<close> return \<open>None\<close> and leaves the
  environment as it is; the lockfile written and the packages registered are those of a
  resolver output without that line, and the package's entry among the packages of the
  environment is untouched. \<open>fix_pin\<close> of the single-file module does the same for a
  package of its ignore set.
\<close>

theorem ignored_package_dropped:
  "(valid (Dep line) \<and> ignore_d env (package (Dep line)) = Some recorded \<and>
      (recorded = None \<or> recorded = Some (version (Dep line))) \<longrightarrow>
      fix_pin_d Dep drop_post_in serialize_d env line = Inr (None, env) \<and>
      (concatenated fp = (pre @ line # post, raised) \<and> concatenated fp' = (pre @ post, raised) \<longrightarrow>
         fix_lockfile_d Dep drop_post_in serialize_d env fp =
         fix_lockfile_d Dep drop_post_in serialize_d env fp') \<and>
      (\<forall>out env'. fix_lockfile_d Dep drop_post_in serialize_d env fp = Inr (out, env') \<longrightarrow>
         packages_d env' (package (Dep line)) = packages_d env (package (Dep line)))) \<and>
   (valid (Dependency_init line_s) \<and> package (Dependency_init line_s) \<in> ignore env_s \<longrightarrow>
      fix_pin fnmatch patterns env_s line_s = (None, env_s) \<and>
      fix_lockfile fnmatch patterns env_s (pre_s @ line_s # post_s) =
      fix_lockfile fnmatch patterns env_s (pre_s @ post_s))"
proof (intro conjI impI allI)
  assume a: "valid (Dep line) \<and> ignore_d env (package (Dep line)) = Some recorded \<and>
      (recorded = None \<or> recorded = Some (version (Dep line)))"
  then show "fix_pin_d Dep drop_post_in serialize_d env line = Inr (None, env)"
    by (intro fix_pin_d_ignored[of Dep line env recorded]) simp_all
  {
    assume c: "concatenated fp = (pre @ line # post, raised) \<and>
      concatenated fp' = (pre @ post, raised)"
    from a have "map_sum id (\<lambda>(rs, e). (written rs, e))
          (fix_pins_d Dep drop_post_in serialize_d env (pre @ line # post)) =
        map_sum id (\<lambda>(rs, e). (written rs, e))
          (fix_pins_d Dep drop_post_in serialize_d env (pre @ post))"
      by (intro fix_pins_d_skip[of Dep line env recorded]) simp_all
    moreover from c have c1: "concatenated fp = (pre @ line # post, raised)"
      and c2: "concatenated fp' = (pre @ post, raised)" by simp_all
    ultimately show "fix_lockfile_d Dep drop_post_in serialize_d env fp =
         fix_lockfile_d Dep drop_post_in serialize_d env fp'"
      by (simp only: fix_lockfile_d_of[OF c1] fix_lockfile_d_of[OF c2])
  }
  {
    fix out env'
    assume "fix_lockfile_d Dep drop_post_in serialize_d env fp = Inr (out, env')"
    moreover from a have "package (Dep line) \<in> dom (ignore_d env)" by auto
    ultimately show "packages_d env' (package (Dep line)) = packages_d env (package (Dep line))"
      by (rule fix_lockfile_d_packages)
  }
next
  assume s: "valid (Dependency_init line_s) \<and> package (Dependency_init line_s) \<in> ignore env_s"
  then show "fix_pin fnmatch patterns env_s line_s = (None, env_s)"
    by (simp add: fix_pin_ignored)
  from s show "fix_lockfile fnmatch patterns env_s (pre_s @ line_s # post_s) =
      fix_lockfile fnmatch patterns env_s (pre_s @ post_s)"
    by (simp add: fix_lockfile_skip)
qed

text \<open>
  C1 (amended). A line whose package has a recorded version in the ignore mapping, and
  whose own version is not empty and differs from the recorded one, makes \<open>fix_pin\<close>
  fail: the record logged names the package and the two versions, a \<open>RuntimeError\<close> is
  raised, and \<open>fix_lockfile\<close> fails on every resolver output that holds the line, so
  that nothing is written.
\<close>

theorem version_conflict_fatal:
  assumes "valid (Dep line)"
    and "ignore_d env (package (Dep line)) = Some (Some recorded)"
    and "version (Dep line) \<noteq> []"
    and "version (Dep line) \<noteq> recorded"
  shows "fix_pin_d Dep drop_post_in serialize_d env line =
      Inl ([conflict_message (package (Dep line)) (version (Dep line)) recorded], conflict_error) \<and>
    sublist (package (Dep line)) (conflict_message (package (Dep line)) (version (Dep line)) recorded) \<and>
    sublist (version (Dep line)) (conflict_message (package (Dep line)) (version (Dep line)) recorded) \<and>
    sublist recorded (conflict_message (package (Dep line)) (version (Dep line)) recorded) \<and>
    (line \<in> set (fst (concatenated fp)) \<longrightarrow>
       isl (fix_lockfile_d Dep drop_post_in serialize_d env fp))"
proof -
  have f: "fix_pin_d Dep drop_post_in serialize_d env' line =
      Inl ([conflict_message (package (Dep line)) (version (Dep line)) recorded], conflict_error)"
    if "ignore_d env' = ignore_d env" for env'
    using assms that by (intro fix_pin_d_conflict) simp_all
  have "isl (fix_lockfile_d Dep drop_post_in serialize_d env fp)"
    if l: "line \<in> set (fst (concatenated fp))"
  proof -
    have "isl (fix_pins_d Dep drop_post_in serialize_d env (fst (concatenated fp)))"
      using l f by (intro fix_pins_d_failing[of line]) simp_all
    then show ?thesis
      by (auto simp add: fix_lockfile_d_def split_beta isl_def split: sum.splits option.splits)
  qed
  with f[of env] sublist_conflict_message show ?thesis by simp
qed

lemma pkgA_1_line:
  "Dependency_init ''pkgA==1.0.0'' =
     \<lparr>valid = True, package = ''pkgA'', version = ''1.0.0'', comment = []\<rparr>"
  by code_simp

lemma pkgA_1_line_nl:
  "Dependency_init (''pkgA==1.0.0'' @ [newline]) =
     \<lparr>valid = True, package = ''pkgA'', version = ''1.0.0'', comment = []\<rparr>"
  by code_simp

lemma pkgA_2_line:
  "Dependency_init ''pkgA==2.0.0'' =
     \<lparr>valid = True, package = ''pkgA'', version = ''2.0.0'', comment = []\<rparr>"
  by code_simp

lemma pkgA_tab_line:
  "Dependency_init (''pkgA=='' @ [CHR 0x09] @ ''# via x'') =
     \<lparr>valid = True, package = ''pkgA'', version = [], comment = ''# via x''\<rparr>"
  by code_simp

lemma concatenated_two:
  "concatenated [''pkgA==1.0.0'' @ [newline], ''six==1.11.0'' @ [newline]] =
     ([] @ ''pkgA==1.0.0'' # [''six==1.11.0''], None)"
  by code_simp

lemma concatenated_one:
  "concatenated [''six==1.11.0'' @ [newline]] = ([] @ [''six==1.11.0''], None)"
  by code_simp

lemma concatenated_conflict:
  "concatenated [''pkgA==2.0.0'' @ [newline]] = ([''pkgA==2.0.0''], None)"
  by code_simp

theorem ignored_package_dropped_witness:
  "valid (Dependency_init ''pkgA==1.0.0'') \<and>
   [''pkgA'' \<mapsto> Some ''1.0.0''] (package (Dependency_init ''pkgA==1.0.0'')) = Some (Some ''1.0.0'') \<and>
   Some ''1.0.0'' = Some (version (Dependency_init ''pkgA==1.0.0'')) \<and>
   fix_pin_d Dependency_init (\<lambda>path. drop_post) (serialize (\<lambda>name pat. False) [])
     \<lparr>in_path = ''requirements/test.in'', ignore_d = [''pkgA'' \<mapsto> Some ''1.0.0''],
      packages_d = Map.empty\<rparr> ''pkgA==1.0.0''
   = Inr (None, \<lparr>in_path = ''requirements/test.in'', ignore_d = [''pkgA'' \<mapsto> Some ''1.0.0''],
      packages_d = Map.empty\<rparr>) \<and>
   fix_lockfile_d Dependency_init (\<lambda>path. drop_post) (serialize (\<lambda>name pat. False) [])
     \<lparr>in_path = ''requirements/test.in'', ignore_d = [''pkgA'' \<mapsto> Some ''1.0.0''],
      packages_d = Map.empty\<rparr> [''pkgA==1.0.0'' @ [newline], ''six==1.11.0'' @ [newline]]
   = fix_lockfile_d Dependency_init (\<lambda>path. drop_post) (serialize (\<lambda>name pat. False) [])
     \<lparr>in_path = ''requirements/test.in'', ignore_d = [''pkgA'' \<mapsto> Some ''1.0.0''],
      packages_d = Map.empty\<rparr> [''six==1.11.0'' @ [newline]] \<and>
   valid (Dependency_init (''pkgA==1.0.0'' @ [newline])) \<and>
   package (Dependency_init (''pkgA==1.0.0'' @ [newline]))
     \<in> ignore (Environment_init 3 ''test'' (Some {''pkgA''}) False) \<and>
   fix_pin (\<lambda>name pat. False) [] (Environment_init 3 ''test'' (Some {''pkgA''}) False)
     (''pkgA==1.0.0'' @ [newline])
   = (None, Environment_init 3 ''test'' (Some {''pkgA''}) False) \<and>
   fix_lockfile (\<lambda>name pat. False) [] (Environment_init 3 ''test'' (Some {''pkgA''}) False)
     ([] @ (''pkgA==1.0.0'' @ [newline]) # [''six==1.11.0'' @ [newline]])
   = fix_lockfile (\<lambda>name pat. False) [] (Environment_init 3 ''test'' (Some {''pkgA''}) False)
     ([] @ [''six==1.11.0'' @ [newline]])"
proof -
  let ?env = "\<lparr>in_path = ''requirements/test.in'', ignore_d = [''pkgA'' \<mapsto> Some ''1.0.0''],
      packages_d = Map.empty\<rparr>"
  let ?env_s = "Environment_init 3 ''test'' (Some {''pkgA''}) False"
  have h1: "valid (Dependency_init ''pkgA==1.0.0'')"
    and h2: "ignore_d ?env (package (Dependency_init ''pkgA==1.0.0'')) = Some (Some ''1.0.0'')"
    and h3: "Some ''1.0.0'' = Some (version (Dependency_init ''pkgA==1.0.0''))"
    by (simp_all add: pkgA_1_line)
  have h4: "valid (Dependency_init (''pkgA==1.0.0'' @ [newline]))"
    and h5: "package (Dependency_init (''pkgA==1.0.0'' @ [newline])) \<in> ignore ?env_s"
    using pkgA_1_line_nl by (simp_all add: Environment_init_def Let_def)
  note t = ignored_package_dropped[of Dependency_init "''pkgA==1.0.0''" ?env "Some ''1.0.0''"
      "\<lambda>path. drop_post" "serialize (\<lambda>name pat. False) []"
      "[''pkgA==1.0.0'' @ [newline], ''six==1.11.0'' @ [newline]]" "[]" "[''six==1.11.0'']" None
      "[''six==1.11.0'' @ [newline]]" "''pkgA==1.0.0'' @ [newline]" ?env_s
      "\<lambda>name pat. False" "[]" "[]" "[''six==1.11.0'' @ [newline]]"]
  from t h1 h2 h3 h4 h5 concatenated_two concatenated_one show ?thesis
    by (simp only: simp_thms environment.simps)
qed

theorem version_conflict_fatal_witness:
  "valid (Dependency_init ''pkgA==2.0.0'') \<and>
   [''pkgA'' \<mapsto> Some ''1.0.0''] (package (Dependency_init ''pkgA==2.0.0'')) = Some (Some ''1.0.0'') \<and>
   version (Dependency_init ''pkgA==2.0.0'') \<noteq> [] \<and>
   version (Dependency_init ''pkgA==2.0.0'') \<noteq> ''1.0.0'' \<and>
   fix_pin_d Dependency_init (\<lambda>path. drop_post) (serialize (\<lambda>name pat. False) [])
     \<lparr>in_path = ''requirements/test.in'', ignore_d = [''pkgA'' \<mapsto> Some ''1.0.0''],
      packages_d = Map.empty\<rparr> ''pkgA==2.0.0''
   = Inl ([''Package pkgA was resolved to different versions in different environments: 2.0.0 and 1.0.0''],
          RuntimeError ''Please add constraints for the package version listed above'') \<and>
   isl (fix_lockfile_d Dependency_init (\<lambda>path. drop_post) (serialize (\<lambda>name pat. False) [])
     \<lparr>in_path = ''requirements/test.in'', ignore_d = [''pkgA'' \<mapsto> Some ''1.0.0''],
      packages_d = Map.empty\<rparr> [''pkgA==2.0.0'' @ [newline]])"
proof -
  let ?env = "\<lparr>in_path = ''requirements/test.in'', ignore_d = [''pkgA'' \<mapsto> Some ''1.0.0''],
      packages_d = Map.empty\<rparr>"
  have h1: "valid (Dependency_init ''pkgA==2.0.0'')"
    and h2: "ignore_d ?env (package (Dependency_init ''pkgA==2.0.0'')) = Some (Some ''1.0.0'')"
    and h3: "version (Dependency_init ''pkgA==2.0.0'') \<noteq> []"
    and h4: "version (Dependency_init ''pkgA==2.0.0'') \<noteq> ''1.0.0''"
    by (simp_all add: pkgA_2_line)
  have m: "conflict_message (package (Dependency_init ''pkgA==2.0.0''))
      (version (Dependency_init ''pkgA==2.0.0'')) ''1.0.0'' =
    ''Package pkgA was resolved to different versions in different environments: 2.0.0 and 1.0.0''"
    by (simp add: pkgA_2_line conflict_message_def)
  have l: "''pkgA==2.0.0'' \<in> set (fst (concatenated [''pkgA==2.0.0'' @ [newline]]))"
    using concatenated_conflict by simp
  note t = version_conflict_fatal[of Dependency_init "''pkgA==2.0.0''" ?env "''1.0.0''"
      "\<lambda>path. drop_post" "serialize (\<lambda>name pat. False) []"
      "[''pkgA==2.0.0'' @ [newline]]", OF h1 h2 h3 h4]
  from t l h1 h2 h3 h4 show ?thesis
    unfolding m conflict_error_def by simp
qed

text \<open>
  C1 as stated fails where the version of the line is empty: the pattern takes the tab
  of \<open>"pkgA==\t# via x"\<close> as the version, which is empty once trimmed; the recorded
  version \<open>1.0.0\<close> differs from it, and \<open>fix_pin\<close> returns \<open>None\<close> without an error.
\<close>

theorem version_conflict_fatal_counterexample:
  "valid (Dependency_init (''pkgA=='' @ [CHR 0x09] @ ''# via x'')) \<and>
   [''pkgA'' \<mapsto> Some ''1.0.0''] (package (Dependency_init (''pkgA=='' @ [CHR 0x09] @ ''# via x'')))
     = Some (Some ''1.0.0'') \<and>
   version (Dependency_init (''pkgA=='' @ [CHR 0x09] @ ''# via x'')) \<noteq> ''1.0.0'' \<and>
   fix_pin_d Dependency_init (\<lambda>path. drop_post) (serialize (\<lambda>name pat. False) [])
     \<lparr>in_path = ''requirements/test.in'', ignore_d = [''pkgA'' \<mapsto> Some ''1.0.0''],
      packages_d = Map.empty\<rparr> (''pkgA=='' @ [CHR 0x09] @ ''# via x'')
   = Inr (None, \<lparr>in_path = ''requirements/test.in'', ignore_d = [''pkgA'' \<mapsto> Some ''1.0.0''],
      packages_d = Map.empty\<rparr>)"
  using pkgA_tab_line by (simp add: fix_pin_d_def Let_def)

section \<open>Header and body\<close>

lemma split_header_fold:
  "fold (\<lambda>line (body_start, header_ended, lines).
           if startswith line ''#'' \<and> \<not> header_ended
           then (body_start + 1, header_ended, lines @ [line])
           else (body_start, True, lines @ [line]))
        fp (n :: nat, e, acc) = (m, e', out) \<Longrightarrow>
   m = n + (if e then 0 else length (takeWhile (\<lambda>l. startswith l ''#'') fp)) \<and> out = acc @ fp"
proof (induction fp arbitrary: n e acc)
  case Nil
  then show ?case by simp
next
  case (Cons l fp)
  show ?case
  proof (cases "startswith l ''#'' \<and> \<not> e")
    case True
    with Cons.prems Cons.IH[of "n + 1" e "acc @ [l]"] show ?thesis by simp
  next
    case False
    with Cons.prems Cons.IH[of n True "acc @ [l]"] show ?thesis by auto
  qed
qed

lemma split_header_eq:
  "split_header fp =
     (takeWhile (\<lambda>l. startswith l ''#'') fp, dropWhile (\<lambda>l. startswith l ''#'') fp)"
proof -
  let ?step = "\<lambda>line (body_start, header_ended, lines).
           if startswith line ''#'' \<and> \<not> header_ended
           then (body_start + 1, header_ended, lines @ [line])
           else (body_start, True, lines @ [line])"
  obtain m e' out where f: "fold ?step fp (0 :: nat, False, []) = (m, e', out)"
    by (cases "fold ?step fp (0 :: nat, False, [])") auto
  from split_header_fold[OF f]
  have m: "m = length (takeWhile (\<lambda>l. startswith l ''#'') fp)" and out: "out = fp" by simp_all
  have "split_header fp = (take m fp, drop m fp)"
    using f out by (simp add: split_header_def)
  then show ?thesis
    using m by (simp add: takeWhile_eq_take[symmetric] dropWhile_eq_drop[symmetric])
qed

lemma readlines_Nil_iff: "readlines s = [] \<longleftrightarrow> s = []"
  by (cases s) (auto split: list.splits)

lemma lines_ok_readlines: "lines_ok (readlines s)"
proof (induction s)
  case Nil
  then show ?case by simp
next
  case (Cons c s)
  show ?case
  proof (cases "c = newline")
    case True
    with Cons show ?thesis by (cases "readlines s") simp_all
  next
    case False
    show ?thesis
    proof (cases "readlines s")
      case Nil
      with False show ?thesis by simp
    next
      case (Cons l ls)
      with False Cons.IH show ?thesis
        by (cases ls) (auto split: if_splits)
    qed
  qed
qed

lemma lines_ok_tl: "lines_ok (l # ls) \<Longrightarrow> lines_ok ls"
  by (cases ls) simp_all

lemma lines_ok_dropWhile: "lines_ok ls \<Longrightarrow> lines_ok (dropWhile P ls)"
proof (induction ls)
  case Nil
  then show ?case by simp
next
  case (Cons l ls)
  then show ?case using lines_ok_tl[of l ls] by simp
qed

lemma readlines_line:
  "l \<noteq> [] \<Longrightarrow> newline \<notin> set (butlast l) \<Longrightarrow> last l = newline \<Longrightarrow>
   readlines (l @ s) = l # readlines s"
proof (induction l)
  case Nil
  then show ?case by simp
next
  case (Cons c l)
  show ?case
  proof (cases "l = []")
    case True
    with Cons.prems show ?thesis by simp
  next
    case False
    with Cons.prems have "c \<noteq> newline" "newline \<notin> set (butlast l)" "last l = newline"
      by auto
    with False Cons.IH show ?thesis by simp
  qed
qed

lemma readlines_last_line:
  "l \<noteq> [] \<Longrightarrow> newline \<notin> set (butlast l) \<Longrightarrow> readlines l = [l]"
proof (induction l)
  case Nil
  then show ?case by simp
next
  case (Cons c l)
  show ?case
  proof (cases "l = []")
    case True
    then show ?thesis by simp
  next
    case False
    with Cons.prems have "c \<noteq> newline" "newline \<notin> set (butlast l)" by auto
    with False Cons.IH show ?thesis by simp
  qed
qed

lemma readlines_concat: "lines_ok ls \<Longrightarrow> readlines (concat ls) = ls"
proof (induction ls rule: lines_ok.induct)
  case 1
  then show ?case by simp
next
  case (2 l)
  then show ?case by (simp add: readlines_last_line)
next
  case (3 l l' ls)
  then show ?case by (simp add: readlines_line)
qed

lemma concat_readlines: "concat (readlines s) = s"
proof (induction s)
  case Nil
  then show ?case by simp
next
  case (Cons c s)
  then show ?case by (cases "readlines s") (auto split: if_splits)
qed

lemma readlines_append:
  "a = [] \<or> last a = newline \<Longrightarrow> readlines (a @ b) = readlines a @ readlines b"
proof (induction a)
  case Nil
  then show ?case by simp
next
  case (Cons c a)
  show ?case
  proof (cases "a = []")
    case True
    with Cons.prems show ?thesis by simp
  next
    case False
    with Cons.prems have "last a = newline" by simp
    with Cons.IH have ih: "readlines (a @ b) = readlines a @ readlines b" by simp
    from False have "readlines a \<noteq> []" by (simp add: readlines_Nil_iff)
    with ih show ?thesis by (cases "readlines a") simp_all
  qed
qed

lemma universal_newlines_id: "carriage_return \<notin> set s \<Longrightarrow> universal_newlines s = s"
  by (induction s rule: universal_newlines.induct) auto

lemma universal_newlines_free: "carriage_return \<notin> set (universal_newlines s)"
  by (induction s rule: universal_newlines.induct)
     (simp_all add: carriage_return_def newline_def)

lemma set_readlines: "\<Union> (set ` set (readlines s)) = set s"
  using concat_readlines[of s] by (metis set_concat)

lemma open_rt_free: "l \<in> set (open_rt content) \<Longrightarrow> carriage_return \<notin> set l"
  using set_readlines[of "universal_newlines content"] universal_newlines_free[of content]
  by (auto simp add: open_rt_def)

lemma open_rt_id: "carriage_return \<notin> set s \<Longrightarrow> open_rt s = readlines s"
  by (simp add: open_rt_def universal_newlines_id)

lemma takeWhile_dropWhile_block:
  assumes "\<forall>l \<in> set hs. P l" and "bs = [] \<or> \<not> P (hd bs)"
  shows "takeWhile P (hs @ bs) = hs \<and> dropWhile P (hs @ bs) = bs"
  using assms by (cases bs) simp_all

lemma body_reread:
  assumes "carriage_return \<notin> set header_text"
    and "header_text = [] \<or> last header_text = newline"
  shows "open_rt (header_text @ concat (dropWhile P (open_rt content))) =
     readlines header_text @ dropWhile P (open_rt content)"
proof -
  let ?body = "dropWhile P (open_rt content)"
  have "\<forall>l \<in> set ?body. carriage_return \<notin> set l"
    using open_rt_free set_dropWhileD by fast
  with assms(1) have "carriage_return \<notin> set (header_text @ concat ?body)"
    by auto
  then have "open_rt (header_text @ concat ?body) = readlines (header_text @ concat ?body)"
    by (rule open_rt_id)
  also have "\<dots> = readlines header_text @ readlines (concat ?body)"
    using assms(2) by (rule readlines_append)
  also have "readlines (concat ?body) = ?body"
    by (intro readlines_concat lines_ok_dropWhile) (simp add: open_rt_def lines_ok_readlines)
  finally show ?thesis .
qed

text \<open>
  C7 (amended). When the header text has no carriage return, every one of its lines
  starts with \<open>#\<close>, and it is empty or ends with a newline, then splitting the file
  that \<open>replace_header\<close> wrote gives back the lines of the header text as the header,
  which together are the header text, and the body that the file had before.
\<close>

theorem replace_header_split_header:
  assumes "carriage_return \<notin> set header_text"
    and "\<forall>l \<in> set (readlines header_text). startswith l ''#''"
    and "header_text = [] \<or> last header_text = newline"
  shows "split_header (open_rt (replace_header header_text content)) =
           (readlines header_text, snd (split_header (open_rt content))) \<and>
         concat (readlines header_text) = header_text"
proof -
  let ?P = "\<lambda>l. startswith l ''#''"
  let ?body = "dropWhile ?P (open_rt content)"
  have r: "replace_header header_text content = header_text @ concat ?body"
    by (simp add: replace_header_def split_header_eq)
  have o: "open_rt (header_text @ concat ?body) = readlines header_text @ ?body"
    using assms(1,3) by (rule body_reread)
  have b: "?body = [] \<or> \<not> ?P (hd ?body)"
    using hd_dropWhile[of ?P "open_rt content"] by blast
  from takeWhile_dropWhile_block[OF assms(2) b]
  have t: "takeWhile ?P (readlines header_text @ ?body) = readlines header_text"
    and d: "dropWhile ?P (readlines header_text @ ?body) = ?body"
    by simp_all
  show ?thesis
    unfolding r o by (simp only: split_header_eq t d snd_conv concat_readlines)
qed

lemma default_header_ok:
  "carriage_return \<notin> set (''# SHA1:da39a3ee5e6b4b0d3255bfef95601890afd80709\<newline>'' @ DEFAULT_HEADER) \<and>
   (\<forall>l \<in> set (readlines (''# SHA1:da39a3ee5e6b4b0d3255bfef95601890afd80709\<newline>'' @ DEFAULT_HEADER)).
      startswith l ''#'') \<and>
   last (''# SHA1:da39a3ee5e6b4b0d3255bfef95601890afd80709\<newline>'' @ DEFAULT_HEADER) = newline"
  by code_simp

lemma compiled_body:
  "snd (split_header (open_rt
     ''#\<newline># This file is autogenerated by pip-compile\<newline>#\<newline>six==1.11.0\<newline>''))
   = [''six==1.11.0\<newline>'']"
  by code_simp

theorem replace_header_split_header_witness:
  "carriage_return \<notin> set (''# SHA1:da39a3ee5e6b4b0d3255bfef95601890afd80709\<newline>'' @ DEFAULT_HEADER) \<and>
   list_all (\<lambda>l. startswith l ''#'')
     (readlines (''# SHA1:da39a3ee5e6b4b0d3255bfef95601890afd80709\<newline>'' @ DEFAULT_HEADER)) \<and>
   last (''# SHA1:da39a3ee5e6b4b0d3255bfef95601890afd80709\<newline>'' @ DEFAULT_HEADER) = newline \<and>
   split_header (open_rt (replace_header
      (''# SHA1:da39a3ee5e6b4b0d3255bfef95601890afd80709\<newline>'' @ DEFAULT_HEADER)
      ''#\<newline># This file is autogenerated by pip-compile\<newline>#\<newline>six==1.11.0\<newline>''))
   = (readlines (''# SHA1:da39a3ee5e6b4b0d3255bfef95601890afd80709\<newline>'' @ DEFAULT_HEADER),
      [''six==1.11.0\<newline>'']) \<and>
   concat (readlines (''# SHA1:da39a3ee5e6b4b0d3255bfef95601890afd80709\<newline>'' @ DEFAULT_HEADER))
   = ''# SHA1:da39a3ee5e6b4b0d3255bfef95601890afd80709\<newline>'' @ DEFAULT_HEADER"
proof -
  let ?h = "''# SHA1:da39a3ee5e6b4b0d3255bfef95601890afd80709\<newline>'' @ DEFAULT_HEADER"
  let ?c = "''#\<newline># This file is autogenerated by pip-compile\<newline>#\<newline>six==1.11.0\<newline>''"
  from default_header_ok have h1: "carriage_return \<notin> set ?h"
    and h2: "\<forall>l \<in> set (readlines ?h). startswith l ''#''"
    and h3: "?h = [] \<or> last ?h = newline"
    by blast+
  note t = replace_header_split_header[OF h1 h2 h3, of ?c]
  from t[unfolded compiled_body] default_header_ok show ?thesis
    unfolding list_all_iff by blast
qed

text \<open>
  C7 as stated fails for a header text with a line that does not start with \<open>#\<close>:
  after \<open>replace_header\<close> with a custom header that holds an empty line,
  \<open>split_header\<close> returns the first line alone as the header, and the rest of the
  header text at the head of the body.
\<close>

theorem replace_header_split_header_counterexample:
  "split_header (open_rt (replace_header ''# custom header\<newline>\<newline># second part\<newline>''
      ''# old header\<newline>six==1.11.0\<newline>''))
   = ([''# custom header\<newline>''], [''\<newline>'', ''# second part\<newline>'', ''six==1.11.0\<newline>'']) \<and>
   concat [''# custom header\<newline>''] \<noteq> ''# custom header\<newline>\<newline># second part\<newline>'' \<and>
   snd (split_header (open_rt ''# old header\<newline>six==1.11.0\<newline>'')) = [''six==1.11.0\<newline>'']"
  by code_simp

section \<open>The dictionary of references\<close>

lemma map_of_fold_update:
  "map_of (fold (\<lambda>env d. AList.update (name env) (f env) d) envs d0) =
   fold (\<lambda>env m. m(name env \<mapsto> f env)) envs (map_of d0)"
  by (induction envs arbitrary: d0) (simp_all add: update_conv')

lemma dom_fold_upd:
  "dom (fold (\<lambda>env m. m(name env \<mapsto> f env)) envs m0) = name ` set envs \<union> dom m0"
  by (induction envs arbitrary: m0) auto

lemma fold_upd_Some:
  "fold (\<lambda>env m. m(name env \<mapsto> f env)) envs m0 n = Some v \<Longrightarrow>
   m0 n = Some v \<or> (\<exists>env \<in> set envs. name env = n \<and> v = f env)"
proof (induction envs arbitrary: m0)
  case Nil
  then show ?case by simp
next
  case (Cons e envs)
  from Cons.prems have "fold (\<lambda>env m. m(name env \<mapsto> f env)) envs (m0(name e \<mapsto> f e)) n = Some v"
    by (simp only: fold.simps comp_apply)
  from Cons.IH[OF this] show ?case
    by (auto split: if_splits)
qed

lemma dom_refs_by_name: "dom (map_of (refs_by_name envs)) = name ` set envs"
  by (simp add: refs_by_name_def map_of_fold_update dom_fold_upd)

lemma refs_by_name_Some:
  "map_of (refs_by_name envs) n = Some rs \<Longrightarrow> \<exists>env \<in> set envs. name env = n \<and> rs = set (refs env)"
  using fold_upd_Some[of "\<lambda>env. set (refs env)" envs Map.empty n rs]
  by (simp add: refs_by_name_def map_of_fold_update)

lemma refs_by_name_finite: "map_of (refs_by_name envs) n = Some rs \<Longrightarrow> finite rs"
  using refs_by_name_Some by fastforce

lemma ref_graph_Image: "map_of (refs_by_name envs) n = Some rs \<Longrightarrow> ref_graph envs `` {n} = rs"
  by (auto simp add: ref_graph_def)

lemma ref_graph_closed:
  assumes "closed_refs envs" and "(n, r) \<in> ref_graph envs"
  shows "r \<in> name ` set envs"
proof -
  from assms(2) obtain rs where "map_of (refs_by_name envs) n = Some rs" "r \<in> rs"
    by (auto simp add: ref_graph_def)
  with refs_by_name_Some obtain env where "env \<in> set envs" "r \<in> set (refs env)"
    by blast
  with assms(1) show ?thesis by (auto simp add: closed_refs_def list_all_iff)
qed

lemma finite_ref_graph: "finite (ref_graph envs)"
proof -
  have "ref_graph envs \<subseteq> name ` set envs \<times> \<Union> ((\<lambda>env. set (refs env)) ` set envs)"
  proof
    fix x assume "x \<in> ref_graph envs"
    then obtain n r rs where x: "x = (n, r)" "map_of (refs_by_name envs) n = Some rs" "r \<in> rs"
      by (auto simp add: ref_graph_def)
    from refs_by_name_Some[OF x(2)] x(1,3)
    show "x \<in> name ` set envs \<times> \<Union> ((\<lambda>env. set (refs env)) ` set envs)"
      by auto
  qed
  then show ?thesis by (rule finite_subset) simp
qed

lemma trancl_Image_unfold: "R\<^sup>+ `` {n} = R `` {n} \<union> (\<Union>r \<in> R `` {n}. R\<^sup>+ `` {r})"
proof
  show "R\<^sup>+ `` {n} \<subseteq> R `` {n} \<union> (\<Union>r \<in> R `` {n}. R\<^sup>+ `` {r})"
  proof
    fix x assume "x \<in> R\<^sup>+ `` {n}"
    then have "(n, x) \<in> R\<^sup>+" by simp
    then obtain z where z: "(n, z) \<in> R" "(z, x) \<in> R\<^sup>*" by (blast dest: tranclD)
    from z(2) have "z = x \<or> (z, x) \<in> R\<^sup>+" by (auto simp add: rtrancl_eq_or_trancl)
    with z(1) show "x \<in> R `` {n} \<union> (\<Union>r \<in> R `` {n}. R\<^sup>+ `` {r})" by auto
  qed
next
  show "R `` {n} \<union> (\<Union>r \<in> R `` {n}. R\<^sup>+ `` {r}) \<subseteq> R\<^sup>+ `` {n}"
    by (auto intro: trancl_into_trancl2)
qed

section \<open>Results of a comprehension\<close>

lemma collect_map_Inr:
  "(\<And>x. x \<in> set xs \<Longrightarrow> f x = Inr (g x)) \<Longrightarrow> collect (map f xs) = Inr (map g xs)"
  by (induction xs) simp_all

lemma collect_map_isl:
  "x \<in> set xs \<Longrightarrow> isl (f x) \<Longrightarrow> isl (collect (map f xs))"
proof (induction xs)
  case Nil
  then show ?case by simp
next
  case (Cons y xs)
  show ?case
  proof (cases "f y")
    case (Inl e)
    then show ?thesis by simp
  next
    case (Inr v)
    with Cons have "isl (collect (map f xs))" by auto
    with Inr show ?thesis by (auto simp add: isl_def)
  qed
qed

section \<open>Recursive references\<close>

lemma recursive_refs_reachable:
  assumes ac: "acyclic (ref_graph envs)" and cl: "closed_refs envs"
  shows "n \<in> name ` set envs \<Longrightarrow> card ((ref_graph envs)\<^sup>+ `` {n}) < depth \<Longrightarrow>
    recursive_refs depth envs n = Inr ((ref_graph envs)\<^sup>+ `` {n})"
proof (induction depth arbitrary: n)
  case 0
  then show ?case by simp
next
  case (Suc depth)
  let ?G = "ref_graph envs"
  from Suc.prems(1) obtain rs where rs: "map_of (refs_by_name envs) n = Some rs"
    using dom_refs_by_name[of envs] by blast
  have img: "?G `` {n} = rs" using rs by (rule ref_graph_Image)
  have fin: "finite (?G\<^sup>+ `` {n})"
    using finite_ref_graph[of envs] by (simp add: finite_Image)
  have step: "recursive_refs depth envs r = Inr (?G\<^sup>+ `` {r})" if r: "r \<in> rs" for r
  proof -
    from r img have e: "(n, r) \<in> ?G" by auto
    then have dom: "r \<in> name ` set envs" using cl ref_graph_closed by blast
    have sub: "?G\<^sup>+ `` {r} \<subseteq> ?G\<^sup>+ `` {n}"
      using e by (auto intro: trancl_into_trancl2)
    have "r \<in> ?G\<^sup>+ `` {n}" using e by auto
    moreover have "r \<notin> ?G\<^sup>+ `` {r}" using ac by (auto simp add: acyclic_def)
    ultimately have "?G\<^sup>+ `` {r} \<subset> ?G\<^sup>+ `` {n}" using sub by blast
    with fin have "card (?G\<^sup>+ `` {r}) < card (?G\<^sup>+ `` {n})"
      by (rule psubset_card_mono)
    with Suc.prems(2) have "card (?G\<^sup>+ `` {r}) < depth" by simp
    with dom show ?thesis by (rule Suc.IH)
  qed
  have frs: "finite rs" using rs by (rule refs_by_name_finite)
  have c: "collect (map (recursive_refs depth envs) (sorted_list_of_set rs)) =
      Inr (map (\<lambda>r. ?G\<^sup>+ `` {r}) (sorted_list_of_set rs))"
    using frs step by (intro collect_map_Inr) simp
  have u: "?G\<^sup>+ `` {n} = rs \<union> (\<Union>r \<in> rs. ?G\<^sup>+ `` {r})"
    using trancl_Image_unfold[of ?G n] img by simp
  show ?case
  proof (cases "rs = {}")
    case True
    with rs u show ?thesis by simp
  next
    case False
    with rs c frs u show ?thesis by simp
  qed
qed

lemma reachable_card:
  assumes ac: "acyclic (ref_graph envs)" and cl: "closed_refs envs"
    and n: "n \<in> name ` set envs"
  shows "card ((ref_graph envs)\<^sup>+ `` {n}) < length envs"
proof -
  let ?G = "ref_graph envs"
  have "?G\<^sup>+ `` {n} \<subseteq> name ` set envs"
  proof
    fix x assume "x \<in> ?G\<^sup>+ `` {n}"
    then have "(n, x) \<in> ?G\<^sup>+" by simp
    then obtain z where "(z, x) \<in> ?G" by (blast elim: tranclE)
    with cl show "x \<in> name ` set envs" by (rule ref_graph_closed)
  qed
  moreover have "n \<notin> ?G\<^sup>+ `` {n}" using ac by (auto simp add: acyclic_def)
  ultimately have "?G\<^sup>+ `` {n} \<subset> name ` set envs" using n by blast
  then have "card (?G\<^sup>+ `` {n}) < card (name ` set envs)"
    by (intro psubset_card_mono) simp_all
  also have "\<dots> \<le> length envs"
    using card_image_le[of "set envs" name] card_length[of envs] by simp
  finally show ?thesis .
qed

lemma cycle_step:
  assumes "(n, c) \<in> R\<^sup>*" and "(c, c) \<in> R\<^sup>+"
  shows "\<exists>r. (n, r) \<in> R \<and> (r, c) \<in> R\<^sup>*"
proof (cases "n = c")
  case True
  with assms(2) show ?thesis by (blast dest: tranclD)
next
  case False
  with assms(1) have "(n, c) \<in> R\<^sup>+" by (simp add: rtrancl_eq_or_trancl)
  then show ?thesis by (blast dest: tranclD)
qed

lemma recursive_refs_cycle:
  assumes "(c, c) \<in> (ref_graph envs)\<^sup>+"
  shows "(n, c) \<in> (ref_graph envs)\<^sup>* \<Longrightarrow> isl (recursive_refs depth envs n)"
proof (induction depth arbitrary: n)
  case 0
  then show ?case by simp
next
  case (Suc depth)
  show ?case
  proof (cases "map_of (refs_by_name envs) n")
    case None
    then show ?thesis by simp
  next
    case (Some rs)
    from cycle_step[OF Suc.prems assms] obtain r where
      r: "(n, r) \<in> ref_graph envs" "(r, c) \<in> (ref_graph envs)\<^sup>*" by blast
    from r(1) Some have rin: "r \<in> rs" by (auto simp add: ref_graph_def)
    have frs: "finite rs" using Some by (rule refs_by_name_finite)
    from r(2) have "isl (recursive_refs depth envs r)" by (rule Suc.IH)
    with rin frs have "isl (collect (map (recursive_refs depth envs) (sorted_list_of_set rs)))"
      by (intro collect_map_isl[of r]) simp_all
    with Some rin show ?thesis by (auto simp add: isl_def)
  qed
qed

lemma recursive_refs_errors:
  "recursive_refs depth envs n = Inl e \<Longrightarrow> e = RecursionError \<or> (\<exists>k. e = KeyError k)"
proof (induction depth arbitrary: n e)
  case 0
  then show ?case by simp
next
  case (Suc depth)
  show ?case
  proof (cases "map_of (refs_by_name envs) n")
    case None
    with Suc.prems show ?thesis by auto
  next
    case (Some rs)
    have "\<And>xs. collect (map (recursive_refs depth envs) xs) = Inl e \<Longrightarrow>
        \<exists>x. recursive_refs depth envs x = Inl e"
    proof -
      fix xs show "collect (map (recursive_refs depth envs) xs) = Inl e \<Longrightarrow>
        \<exists>x. recursive_refs depth envs x = Inl e"
      proof (induction xs)
        case Nil
        then show ?case by simp
      next
        case (Cons x xs)
        then show ?case
          by (cases "recursive_refs depth envs x") (auto split: sum.splits)
      qed
    qed
    with Some Suc.prems obtain x where "recursive_refs depth envs x = Inl e"
      by (fastforce split: if_splits sum.splits)
    then show ?thesis by (rule Suc.IH)
  qed
qed

lemma collect_map_InrD:
  "collect (map f xs) = Inr ys \<Longrightarrow> list_all2 (\<lambda>x y. f x = Inr y) xs ys"
proof (induction xs arbitrary: ys)
  case Nil
  then show ?case by simp
next
  case (Cons x xs)
  then show ?case
    by (cases "f x") (auto split: sum.splits)
qed

lemma recursive_refs_sound:
  "recursive_refs depth envs n = Inr S \<Longrightarrow> S = (ref_graph envs)\<^sup>+ `` {n}"
proof (induction depth arbitrary: n S)
  case 0
  then show ?case by simp
next
  case (Suc depth)
  let ?G = "ref_graph envs"
  from Suc.prems obtain rs where rs: "map_of (refs_by_name envs) n = Some rs"
    by (auto split: option.splits)
  have img: "?G `` {n} = rs" using rs by (rule ref_graph_Image)
  have frs: "finite rs" using rs by (rule refs_by_name_finite)
  have u: "?G\<^sup>+ `` {n} = rs \<union> (\<Union>r \<in> rs. ?G\<^sup>+ `` {r})"
    using trancl_Image_unfold[of ?G n] img by simp
  show ?case
  proof (cases "rs = {}")
    case True
    with rs u Suc.prems show ?thesis by simp
  next
    case False
    with rs Suc.prems obtain ys where
      ys: "collect (map (recursive_refs depth envs) (sorted_list_of_set rs)) = Inr ys"
      and S: "S = rs \<union> \<Union> (set ys)"
      by (auto split: sum.splits)
    from collect_map_InrD[OF ys]
    have "list_all2 (\<lambda>x y. y = ?G\<^sup>+ `` {x}) (sorted_list_of_set rs) ys"
      by (rule list_all2_mono) (simp add: Suc.IH)
    then have "ys = map (\<lambda>x. ?G\<^sup>+ `` {x}) (sorted_list_of_set rs)"
      by (induction rule: list_all2_induct) simp_all
    with frs have "\<Union> (set ys) = (\<Union>r \<in> rs. ?G\<^sup>+ `` {r})" by simp
    with S u show ?thesis by simp
  qed
qed

lemma recursive_refs_no_KeyError:
  assumes cl: "closed_refs envs"
  shows "n \<in> name ` set envs \<Longrightarrow> recursive_refs depth envs n \<noteq> Inl (KeyError k)"
proof (induction depth arbitrary: n)
  case 0
  then show ?case by simp
next
  case (Suc depth)
  from Suc.prems obtain rs where rs: "map_of (refs_by_name envs) n = Some rs"
    using dom_refs_by_name[of envs] by blast
  have frs: "finite rs" using rs by (rule refs_by_name_finite)
  have ok: "recursive_refs depth envs r \<noteq> Inl (KeyError k)" if "r \<in> rs" for r
  proof -
    from that rs have "(n, r) \<in> ref_graph envs" by (auto simp add: ref_graph_def)
    with cl have "r \<in> name ` set envs" by (rule ref_graph_closed)
    then show ?thesis by (rule Suc.IH)
  qed
  have c: "collect (map (recursive_refs depth envs) xs) \<noteq> Inl (KeyError k)"
    if "set xs \<subseteq> rs" for xs
    using that
  proof (induction xs)
    case Nil
    then show ?case by simp
  next
    case (Cons x xs)
    with ok[of x] show ?case
      by (cases "recursive_refs depth envs x") (auto split: sum.splits)
  qed
  from c[of "sorted_list_of_set rs"] frs rs show ?case
    by (auto split: sum.splits)
qed

text \<open>
  C4. On an acyclic reference graph, a set that \<open>recursive_refs\<close> returns is the set of
  the names reachable from the given one along references, and the given name is not in
  it; and \<open>recursive_refs\<close> does return when every reference names an environment of the
  list, so does the given name, and the interpreter allows as many nested calls as there
  are environments.
\<close>

theorem recursive_refs_transitive_closure:
  assumes "acyclic (ref_graph envs)"
  shows "(\<forall>S. recursive_refs depth envs nm = Inr S \<longrightarrow>
            S = (ref_graph envs)\<^sup>+ `` {nm} \<and> nm \<notin> S) \<and>
         (closed_refs envs \<and> nm \<in> set (map name envs) \<and> length envs \<le> depth \<longrightarrow>
            recursive_refs depth envs nm = Inr ((ref_graph envs)\<^sup>+ `` {nm}))"
proof (intro conjI allI impI)
  fix S assume "recursive_refs depth envs nm = Inr S"
  then show "S = (ref_graph envs)\<^sup>+ `` {nm}" by (rule recursive_refs_sound)
  moreover have "nm \<notin> (ref_graph envs)\<^sup>+ `` {nm}"
    using assms by (auto simp add: acyclic_def)
  ultimately show "nm \<notin> S" by simp
next
  assume a: "closed_refs envs \<and> nm \<in> set (map name envs) \<and> length envs \<le> depth"
  then have n: "nm \<in> name ` set envs" by simp
  with assms a have "card ((ref_graph envs)\<^sup>+ `` {nm}) < length envs"
    by (intro reachable_card) simp_all
  with a have "card ((ref_graph envs)\<^sup>+ `` {nm}) < depth" by simp
  with assms a n show "recursive_refs depth envs nm = Inr ((ref_graph envs)\<^sup>+ `` {nm})"
    by (intro recursive_refs_reachable) simp_all
qed

text \<open>
  C5. When a cycle of references can be reached from the given name,
  \<open>recursive_refs\<close> fails whatever number of nested calls the interpreter allows: it
  raises \<open>RecursionError\<close> when the limit is reached, or \<open>KeyError\<close> at a reference that
  names no environment, and on a list whose references all name environments the error is
  \<open>RecursionError\<close>.
\<close>

theorem recursive_refs_cycle_fails:
  assumes "(nm, c) \<in> (ref_graph envs)\<^sup>*" and "(c, c) \<in> (ref_graph envs)\<^sup>+"
  shows "(\<exists>e. recursive_refs depth envs nm = Inl e \<and>
              (e = RecursionError \<or> (\<exists>k. e = KeyError k))) \<and>
         (closed_refs envs \<and> nm \<in> set (map name envs) \<longrightarrow>
            recursive_refs depth envs nm = Inl RecursionError)"
proof -
  from assms(2,1) have "isl (recursive_refs depth envs nm)"
    by (rule recursive_refs_cycle)
  then obtain e where e: "recursive_refs depth envs nm = Inl e"
    by (auto simp add: isl_def)
  from recursive_refs_errors[OF e] have k: "e = RecursionError \<or> (\<exists>k. e = KeyError k)" .
  have "e = RecursionError" if "closed_refs envs \<and> nm \<in> set (map name envs)"
    using that e k recursive_refs_no_KeyError[of envs nm depth] by auto
  with e k show ?thesis by blast
qed

lemma chain_graph:
  "ref_graph [\<lparr>name = ''base'', refs = []\<rparr>, \<lparr>name = ''test'', refs = [''base'']\<rparr>,
              \<lparr>name = ''local'', refs = [''test'']\<rparr>] =
   {(''test'', ''base''), (''local'', ''test'')}"
  by (auto simp add: ref_graph_def refs_by_name_def split: if_splits)

lemma chain_acyclic:
  "acyclic (ref_graph [\<lparr>name = ''base'', refs = []\<rparr>, \<lparr>name = ''test'', refs = [''base'']\<rparr>,
                       \<lparr>name = ''local'', refs = [''test'']\<rparr>])"
  unfolding chain_graph
  by (rule acyclicI_order[where f = "\<lambda>n. if n = ''local'' then 2 else if n = ''test'' then 1 else (0::nat)"])
     auto

lemma chain_local:
  "recursive_refs 3 [\<lparr>name = ''base'', refs = []\<rparr>, \<lparr>name = ''test'', refs = [''base'']\<rparr>,
                     \<lparr>name = ''local'', refs = [''test'']\<rparr>] ''local'' =
   Inr {''base'', ''test''}"
  by code_simp

lemma chain_closed:
  "closed_refs [\<lparr>name = ''base'', refs = []\<rparr>, \<lparr>name = ''test'', refs = [''base'']\<rparr>,
                \<lparr>name = ''local'', refs = [''test'']\<rparr>]"
  by (simp add: closed_refs_def)

theorem recursive_refs_transitive_closure_witness:
  "acyclic (ref_graph [\<lparr>name = ''base'', refs = []\<rparr>, \<lparr>name = ''test'', refs = [''base'']\<rparr>,
                       \<lparr>name = ''local'', refs = [''test'']\<rparr>]) \<and>
   closed_refs [\<lparr>name = ''base'', refs = []\<rparr>, \<lparr>name = ''test'', refs = [''base'']\<rparr>,
                \<lparr>name = ''local'', refs = [''test'']\<rparr>] \<and>
   ''local'' \<in> set (map name [\<lparr>name = ''base'', refs = []\<rparr>, \<lparr>name = ''test'', refs = [''base'']\<rparr>,
                                \<lparr>name = ''local'', refs = [''test'']\<rparr>]) \<and>
   length [\<lparr>name = ''base'', refs = []\<rparr>, \<lparr>name = ''test'', refs = [''base'']\<rparr>,
           \<lparr>name = ''local'', refs = [''test'']\<rparr>] \<le> 3 \<and>
   recursive_refs 3 [\<lparr>name = ''base'', refs = []\<rparr>, \<lparr>name = ''test'', refs = [''base'']\<rparr>,
                     \<lparr>name = ''local'', refs = [''test'']\<rparr>] ''local'' =
     Inr {''base'', ''test''} \<and>
   (ref_graph [\<lparr>name = ''base'', refs = []\<rparr>, \<lparr>name = ''test'', refs = [''base'']\<rparr>,
               \<lparr>name = ''local'', refs = [''test'']\<rparr>])\<^sup>+ `` {''local''} = {''base'', ''test''} \<and>
   ''local'' \<notin> {''base'', ''test''}"
proof -
  let ?chain = "[\<lparr>name = ''base'', refs = []\<rparr>, \<lparr>name = ''test'', refs = [''base'']\<rparr>,
                 \<lparr>name = ''local'', refs = [''test'']\<rparr>]"
  note t = recursive_refs_transitive_closure[OF chain_acyclic, of 3 "''local''"]
  from t chain_local have e: "(ref_graph ?chain)\<^sup>+ `` {''local''} = {''base'', ''test''}"
    by blast
  have n: "''local'' \<notin> {''base'', ''test''}" by simp
  have m: "''local'' \<in> set (map name ?chain)" by simp
  have l: "length ?chain \<le> 3" by simp
  from chain_acyclic chain_closed m l chain_local e n show ?thesis
    by (intro conjI)
qed

lemma cycle_graph:
  "ref_graph [\<lparr>name = ''a'', refs = [''b'']\<rparr>, \<lparr>name = ''b'', refs = [''a'']\<rparr>] =
   {(''a'', ''b''), (''b'', ''a'')}"
  by (auto simp add: ref_graph_def refs_by_name_def split: if_splits)

theorem recursive_refs_cycle_fails_witness:
  "(''a'', ''a'') \<in> (ref_graph [\<lparr>name = ''a'', refs = [''b'']\<rparr>, \<lparr>name = ''b'', refs = [''a'']\<rparr>])\<^sup>* \<and>
   (''a'', ''a'') \<in> (ref_graph [\<lparr>name = ''a'', refs = [''b'']\<rparr>, \<lparr>name = ''b'', refs = [''a'']\<rparr>])\<^sup>+ \<and>
   closed_refs [\<lparr>name = ''a'', refs = [''b'']\<rparr>, \<lparr>name = ''b'', refs = [''a'']\<rparr>] \<and>
   ''a'' \<in> set (map name [\<lparr>name = ''a'', refs = [''b'']\<rparr>, \<lparr>name = ''b'', refs = [''a'']\<rparr>]) \<and>
   recursive_refs 1000 [\<lparr>name = ''a'', refs = [''b'']\<rparr>, \<lparr>name = ''b'', refs = [''a'']\<rparr>] ''a'' =
     Inl RecursionError"
proof -
  let ?cyc = "[\<lparr>name = ''a'', refs = [''b'']\<rparr>, \<lparr>name = ''b'', refs = [''a'']\<rparr>]"
  have h1: "(''a'', ''a'') \<in> (ref_graph ?cyc)\<^sup>*" by simp
  have "(''a'', ''b'') \<in> ref_graph ?cyc" and "(''b'', ''a'') \<in> ref_graph ?cyc"
    unfolding cycle_graph by simp_all
  then have h2: "(''a'', ''a'') \<in> (ref_graph ?cyc)\<^sup>+" by (rule trancl_trans[OF r_into_trancl r_into_trancl])
  have h3: "closed_refs ?cyc" by (simp add: closed_refs_def)
  have h4: "''a'' \<in> set (map name ?cyc)" by simp
  from recursive_refs_cycle_fails[OF h1 h2, of 1000] h1 h2 h3 h4 show ?thesis by blast
qed

section \<open>Layers of a topological sort\<close>

lemma keys_remaining:
  "map fst (map (\<lambda>(item, dep). (item, dep - S)) (filter (\<lambda>(item, dep). item \<notin> S) xs)) =
   filter (\<lambda>k. k \<notin> S) (map fst xs)"
  by (induction xs) auto

lemma toposort_layers_sound:
  assumes "distinct (map fst data)" and "toposort_layers data = Inr layers"
  shows "distinct (concat (map sorted_list_of_set layers)) \<and>
    set (concat (map sorted_list_of_set layers)) = fst ` set data \<and>
    (\<forall>i < length (concat (map sorted_list_of_set layers)). \<forall>dep.
       (concat (map sorted_list_of_set layers) ! i, dep) \<in> set data \<longrightarrow>
       dep \<subseteq> set (take i (concat (map sorted_list_of_set layers))))"
  using assms
proof (induction data arbitrary: layers rule: toposort_layers.induct)
  case (1 data)
  define ordered where "ordered = set (map fst (filter (\<lambda>(item, dep). dep = {}) data))"
  define data' where "data' = map (\<lambda>(item, dep). (item, dep - ordered))
      (filter (\<lambda>(item, dep). item \<notin> ordered) data)"
  show ?case
  proof (cases "ordered = {}")
    case True
    with "1.prems"(2) have "data = []" "layers = []"
      by (auto simp add: toposort_layers.simps[of data] ordered_def Let_def split: if_splits)
    then show ?thesis by simp
  next
    case False
    with "1.prems"(2) obtain layers' where
      l': "toposort_layers data' = Inr layers'" and l: "layers = ordered # layers'"
      by (auto simp add: toposort_layers.simps[of data] ordered_def data'_def Let_def
          split: if_splits sum.splits)
    have keys': "map fst data' = filter (\<lambda>k. k \<notin> ordered) (map fst data)"
      by (simp only: data'_def keys_remaining)
    with "1.prems"(1) have d': "distinct (map fst data')" by simp
    define out' where "out' = concat (map sorted_list_of_set layers')"
    have ih: "distinct out' \<and> set out' = fst ` set data' \<and>
      (\<forall>i < length out'. \<forall>dep. (out' ! i, dep) \<in> set data' \<longrightarrow> dep \<subseteq> set (take i out'))"
      using "1.IH"[OF ordered_def False d'[unfolded data'_def] l'[unfolded data'_def]]
      unfolding data'_def out'_def by simp
    have fin: "finite ordered" by (simp add: ordered_def)
    define first where "first = sorted_list_of_set ordered"
    have sf: "set first = ordered" and df: "distinct first"
      using fin by (simp_all add: first_def)
    have out: "concat (map sorted_list_of_set layers) = first @ out'"
      using l by (simp add: first_def out'_def)
    have sub: "ordered \<subseteq> fst ` set data" by (auto simp add: ordered_def)
    have sk': "fst ` set data' = fst ` set data - ordered"
    proof -
      have "fst ` set data' = set (map fst data')" by simp
      also have "\<dots> = set (map fst data) - ordered" unfolding keys' by auto
      finally show ?thesis by simp
    qed
    have empty_dep: "dep = {}" if "(k, dep) \<in> set data" "k \<in> ordered" for k dep
    proof -
      from that(2) obtain dep0 where "(k, dep0) \<in> set data" "dep0 = {}"
        by (auto simp add: ordered_def)
      with that(1) "1.prems"(1) show ?thesis
        by (metis eq_key_imp_eq_value)
    qed
    have c1: "distinct (first @ out')"
      using df ih sf sk' by auto
    have c2: "set (first @ out') = fst ` set data"
      using sf ih sk' sub by auto
    have c3: "dep \<subseteq> set (take i (first @ out'))"
      if i: "i < length (first @ out')" and m: "((first @ out') ! i, dep) \<in> set data" for i dep
    proof (cases "i < length first")
      case True
      then have "(first @ out') ! i \<in> ordered"
        using sf by (metis nth_append nth_mem)
      with m have "dep = {}" by (intro empty_dep[of "(first @ out') ! i"]) simp_all
      then show ?thesis by simp
    next
      case False
      define j where "j = i - length first"
      from False i have j: "j < length out'" and ij: "i = length first + j"
        by (simp_all add: j_def)
      have k: "(first @ out') ! i = out' ! j" using ij by (simp add: nth_append)
      have "out' ! j \<in> set out'" using j by simp
      with ih sk' have notin: "out' ! j \<notin> ordered" by auto
      from m k have "(out' ! j, dep) \<in> set data" by simp
      with notin have "(out' ! j, dep - ordered) \<in> set data'"
        by (force simp add: data'_def)
      with ih j have "dep - ordered \<subseteq> set (take j out')" by blast
      moreover have "set (take i (first @ out')) = ordered \<union> set (take j out')"
        using ij sf by simp
      ultimately show ?thesis by auto
    qed
    from c1 c2 c3 show ?thesis unfolding out by blast
  qed
qed

lemma edges_sink:
  assumes ne: "data \<noteq> []"
    and cl: "\<And>k dep. (k, dep) \<in> set data \<Longrightarrow> dep \<subseteq> fst ` set data"
    and ac: "acyclic (edges data)"
  shows "set (map fst (filter (\<lambda>(item, dep). dep = {}) data)) \<noteq> {}"
proof -
  have sub: "edges data \<subseteq> fst ` set data \<times> fst ` set data"
  proof
    fix x assume "x \<in> edges data"
    then obtain k r dep where x: "x = (k, r)" "(k, dep) \<in> set data" "r \<in> dep"
      by (auto simp add: edges_def)
    from cl[OF x(2)] x(3) have "r \<in> fst ` set data" by blast
    moreover from x(2) have "k \<in> fst ` set data" by (rule image_eqI[rotated]) simp
    ultimately show "x \<in> fst ` set data \<times> fst ` set data" using x(1) by simp
  qed
  then have "finite (edges data)" by (rule finite_subset) simp
  then have "wf ((edges data)\<inverse>)" using ac by (rule finite_acyclic_wf_converse)
  moreover from ne obtain x where "x \<in> fst ` set data" by (cases data) auto
  ultimately obtain z where z: "z \<in> fst ` set data"
    and m: "\<And>y. (y, z) \<in> (edges data)\<inverse> \<Longrightarrow> y \<notin> fst ` set data"
    by (rule wfE_min) blast
  from z obtain dep where d: "(z, dep) \<in> set data" by auto
  have "dep = {}"
  proof (rule ccontr)
    assume "dep \<noteq> {}"
    then obtain y where y: "y \<in> dep" by blast
    with d have "(z, y) \<in> edges data" by (auto simp add: edges_def)
    then have "(y, z) \<in> (edges data)\<inverse>" by simp
    then have "y \<notin> fst ` set data" by (rule m)
    moreover from cl[OF d] y have "y \<in> fst ` set data" by blast
    ultimately show False by simp
  qed
  with d have "(z, dep) \<in> set (filter (\<lambda>(item, dep). dep = {}) data)" by simp
  then have "fst (z, dep) \<in> fst ` set (filter (\<lambda>(item, dep). dep = {}) data)"
    by (rule imageI)
  then show ?thesis by auto
qed

lemma toposort_layers_step:
  assumes "ordered = set (map fst (filter (\<lambda>(item, dep). dep = {}) data))" and "ordered \<noteq> {}"
  shows "toposort_layers data =
     (case toposort_layers (map (\<lambda>(item, dep). (item, dep - ordered))
             (filter (\<lambda>(item, dep). item \<notin> ordered) data)) of
        Inl e \<Rightarrow> Inl e
      | Inr layers \<Rightarrow> Inr (ordered # layers))"
  using assms(2) unfolding assms(1)
  by (subst toposort_layers.simps) (simp only: Let_def if_False)

lemma toposort_layers_total:
  assumes "\<And>k dep. (k, dep) \<in> set data \<Longrightarrow> dep \<subseteq> fst ` set data"
    and "acyclic (edges data)"
  shows "\<exists>layers. toposort_layers data = Inr layers"
  using assms
proof (induction data rule: toposort_layers.induct)
  case (1 data)
  define ordered where "ordered = set (map fst (filter (\<lambda>(item, dep). dep = {}) data))"
  define data' where "data' = map (\<lambda>(item, dep). (item, dep - ordered))
      (filter (\<lambda>(item, dep). item \<notin> ordered) data)"
  show ?case
  proof (cases "data = []")
    case True
    then show ?thesis by (simp add: toposort_layers.simps[of "[]"])
  next
    case False
    with "1.prems" have ne: "ordered \<noteq> {}"
      unfolding ordered_def by (intro edges_sink)
    have keys': "fst ` set data' = fst ` set data - ordered"
    proof -
      have "fst ` set data' = set (map fst data')" by simp
      also have "\<dots> = set (map fst data) - ordered"
        unfolding data'_def keys_remaining by auto
      finally show ?thesis by simp
    qed
    have cl': "dep \<subseteq> fst ` set data'" if "(k, dep) \<in> set data'" for k dep
    proof -
      from that obtain dep0 where "(k, dep0) \<in> set data" "dep = dep0 - ordered"
        by (auto simp add: data'_def)
      with "1.prems"(1)[of k dep0] show ?thesis unfolding keys' by blast
    qed
    have "edges data' \<subseteq> edges data"
      by (auto simp add: edges_def data'_def)
    with "1.prems"(2) have ac': "acyclic (edges data')" by (rule acyclic_subset)
    have "\<exists>layers'. toposort_layers data' = Inr layers'"
      unfolding data'_def
    proof (rule "1.IH"[OF ordered_def ne])
      fix k dep
      assume "(k, dep) \<in> set (map (\<lambda>(item, dep). (item, dep - ordered))
          (filter (\<lambda>(item, dep). item \<notin> ordered) data))"
      then show "dep \<subseteq> fst ` set (map (\<lambda>(item, dep). (item, dep - ordered))
          (filter (\<lambda>(item, dep). item \<notin> ordered) data))"
        by (rule cl'[unfolded data'_def])
    next
      show "acyclic (edges (map (\<lambda>(item, dep). (item, dep - ordered))
          (filter (\<lambda>(item, dep). item \<notin> ordered) data)))"
        by (rule ac'[unfolded data'_def])
    qed
    then obtain layers' where "toposort_layers data' = Inr layers'" by blast
    then show ?thesis
      unfolding toposort_layers_step[OF ordered_def ne] data'_def by simp
  qed
qed

section \<open>The prepared dictionary\<close>

lemma toposort_prepared:
  assumes d: "distinct (map fst data)" and f: "\<forall>(k, dep) \<in> set data. finite dep"
    and ne: "data \<noteq> []"
  defines "data1 \<equiv> map (\<lambda>(k, v). (k, v - {k})) data"
  defines "extra \<equiv> \<Union> (set (map snd data1)) - set (map fst data1)"
  defines "data2 \<equiv> data1 @ map (\<lambda>item. (item, {})) (sorted_list_of_set extra)"
  shows "toposort data = toposort_layers data2"
    and "distinct (map fst data2)"
    and "fst ` set data2 = fst ` set data \<union> extra"
    and "\<And>k dep. (k, dep) \<in> set data2 \<Longrightarrow> dep \<subseteq> fst ` set data2"
    and "edges data2 \<subseteq> edges data"
    and "\<And>k dep. (k, dep) \<in> set data \<Longrightarrow> (k, dep - {k}) \<in> set data2"
    and "extra = \<Union> (snd ` set data) - fst ` set data"
proof -
  show "toposort data = toposort_layers data2"
    using ne by (simp only: toposort_def Let_def data2_def extra_def data1_def if_False)
  have k1: "map fst data1 = map fst data"
    by (simp add: data1_def comp_def case_prod_beta)
  have "finite (\<Union> (set (map snd data1)))"
    using f by (auto simp add: data1_def)
  then have fe: "finite extra" by (simp add: extra_def)
  then have se: "set (sorted_list_of_set extra) = extra"
    and de: "distinct (sorted_list_of_set extra)" by simp_all
  have k2: "map fst data2 = map fst data @ sorted_list_of_set extra"
    by (simp add: data2_def k1 comp_def)
  have dis: "set (map fst data) \<inter> extra = {}"
    by (auto simp add: extra_def k1)
  show "distinct (map fst data2)"
    unfolding k2 using d de se dis by auto
  show keys: "fst ` set data2 = fst ` set data \<union> extra"
  proof -
    have "fst ` set data2 = set (map fst data2)" by simp
    also have "\<dots> = set (map fst data) \<union> extra" unfolding k2 using se by simp
    finally show ?thesis by simp
  qed
  show "\<And>k dep. (k, dep) \<in> set data2 \<Longrightarrow> dep \<subseteq> fst ` set data2"
  proof
    fix k dep x assume m: "(k, dep) \<in> set data2" and x: "x \<in> dep"
    from m x have "(k, dep) \<in> set data1" by (auto simp add: data2_def)
    with x have "x \<in> \<Union> (set (map snd data1))" by force
    then have "x \<in> set (map fst data1) \<or> x \<in> extra" by (auto simp add: extra_def)
    then show "x \<in> fst ` set data2" unfolding keys k1 by auto
  qed
  show "edges data2 \<subseteq> edges data"
    by (auto simp add: edges_def data2_def data1_def)
  show "\<And>k dep. (k, dep) \<in> set data \<Longrightarrow> (k, dep - {k}) \<in> set data2"
    by (force simp add: data2_def data1_def)
  show "extra = \<Union> (snd ` set data) - fst ` set data"
  proof -
    have "extra = (\<Union>(k, dep) \<in> set data. dep - {k}) - fst ` set data"
      by (auto simp add: extra_def data1_def case_prod_beta)
    also have "\<dots> = \<Union> (snd ` set data) - fst ` set data"
      by force
    finally show ?thesis .
  qed
qed

section \<open>The flattened order\<close>

lemma toposort_flatten_sound:
  assumes d: "distinct (map fst data)" and f: "\<forall>(k, dep) \<in> set data. finite dep"
    and r: "toposort_flatten data = Inr names"
  shows "distinct names \<and> set names = fst ` set data \<union> \<Union> (snd ` set data) \<and>
    (\<forall>i < length names. \<forall>dep. (names ! i, dep) \<in> set data \<longrightarrow>
       dep - {names ! i} \<subseteq> set (take i names))"
proof (cases "data = []")
  case True
  with r have "names = []" by (auto simp add: toposort_flatten_def toposort_def)
  with True show ?thesis by simp
next
  case False
  define data1 where "data1 = map (\<lambda>(k, v). (k, v - {k})) data"
  define extra where "extra = \<Union> (set (map snd data1)) - set (map fst data1)"
  define data2 where "data2 = data1 @ map (\<lambda>item. (item, {})) (sorted_list_of_set extra)"
  note p = toposort_prepared[OF d f False, folded data1_def, folded extra_def, folded data2_def]
  from r obtain layers where l: "toposort data = Inr layers"
    and n: "names = concat (map sorted_list_of_set layers)"
    by (auto simp add: toposort_flatten_def split: sum.splits)
  from l p(1) have "toposort_layers data2 = Inr layers" by simp
  from toposort_layers_sound[OF p(2) this, folded n]
  have s1: "distinct names" and s2: "set names = fst ` set data2"
    and s3: "\<And>i dep. i < length names \<Longrightarrow> (names ! i, dep) \<in> set data2 \<Longrightarrow>
      dep \<subseteq> set (take i names)"
    by blast+
  have "set names = fst ` set data \<union> \<Union> (snd ` set data)"
    unfolding s2 p(3) p(7) by blast
  moreover have "dep - {names ! i} \<subseteq> set (take i names)"
    if "i < length names" "(names ! i, dep) \<in> set data" for i dep
    using that p(6)[of "names ! i" dep] s3[of i "dep - {names ! i}"] by blast
  ultimately show ?thesis using s1 by blast
qed

lemma toposort_flatten_total:
  assumes d: "distinct (map fst data)" and f: "\<forall>(k, dep) \<in> set data. finite dep"
    and ac: "acyclic (edges data)"
  shows "\<exists>names. toposort_flatten data = Inr names"
proof (cases "data = []")
  case True
  then show ?thesis by (simp add: toposort_flatten_def toposort_def)
next
  case False
  define data1 where "data1 = map (\<lambda>(k, v). (k, v - {k})) data"
  define extra where "extra = \<Union> (set (map snd data1)) - set (map fst data1)"
  define data2 where "data2 = data1 @ map (\<lambda>item. (item, {})) (sorted_list_of_set extra)"
  note p = toposort_prepared[OF d f False, folded data1_def, folded extra_def, folded data2_def]
  from ac p(5) have "acyclic (edges data2)" by (rule acyclic_subset)
  with p(4) have "\<exists>layers. toposort_layers data2 = Inr layers"
    by (intro toposort_layers_total) blast+
  with p(1) show ?thesis by (auto simp add: toposort_flatten_def)
qed

section \<open>The dictionaries of order\_by\_refs\<close>

lemma distinct_fold_update:
  "distinct (map fst d0) \<Longrightarrow>
   distinct (map fst (fold (\<lambda>env d. AList.update (name env) (f env) d) envs d0))"
  by (induction envs arbitrary: d0) (simp_all add: distinct_update)

lemma distinct_refs_by_name: "distinct (map fst (refs_by_name envs))"
  by (simp add: refs_by_name_def distinct_fold_update)

lemma refs_by_name_mem:
  "(k, dep) \<in> set (refs_by_name envs) \<longleftrightarrow> map_of (refs_by_name envs) k = Some dep"
  using distinct_refs_by_name[of envs] by simp

lemma edges_refs_by_name: "edges (refs_by_name envs) = ref_graph envs"
  by (auto simp add: edges_def ref_graph_def refs_by_name_mem)

lemma finite_refs_by_name: "\<forall>(k, dep) \<in> set (refs_by_name envs). finite dep"
  using refs_by_name_finite by (auto simp add: refs_by_name_mem)

lemma fold_upd_map_option:
  "fold (\<lambda>env m. m(name env \<mapsto> f env)) envs (\<lambda>a. map_option f (m0 a)) =
   (\<lambda>a. map_option f (fold (\<lambda>env m. m(name env \<mapsto> env)) envs m0 a))"
proof (induction envs arbitrary: m0)
  case Nil
  then show ?case by simp
next
  case (Cons e envs)
  have h: "(\<lambda>a. map_option f (m0 a))(name e \<mapsto> f e) =
      (\<lambda>a. map_option f ((m0(name e \<mapsto> e)) a))"
    by (auto simp add: fun_eq_iff)
  show ?case
    by (simp only: fold.simps comp_apply h Cons.IH[of "m0(name e \<mapsto> e)"])
qed

lemma by_name_Some:
  assumes "map_of (fold (\<lambda>env d. AList.update (name env) env d) envs []) n = Some env"
  shows "env \<in> set envs \<and> name env = n \<and> map_of (refs_by_name envs) n = Some (set (refs env))"
proof -
  from assms have b: "fold (\<lambda>env m. m(name env \<mapsto> env)) envs Map.empty n = Some env"
    by (simp add: map_of_fold_update)
  from fold_upd_Some[OF b] have "env \<in> set envs \<and> name env = n" by auto
  moreover have "map_of (refs_by_name envs) n =
      map_option (\<lambda>env. set (refs env)) (fold (\<lambda>env m. m(name env \<mapsto> env)) envs Map.empty n)"
    using fold_upd_map_option[of "\<lambda>env. set (refs env)" envs Map.empty]
    by (simp add: refs_by_name_def map_of_fold_update)
  ultimately show ?thesis using b by simp
qed

lemma dom_by_name:
  "dom (map_of (fold (\<lambda>env d. AList.update (name env) env d) envs [])) = name ` set envs"
  by (simp add: map_of_fold_update dom_fold_upd)

lemma order_by_refs_Inr:
  assumes "order_by_refs envs = Inr out"
  shows "\<exists>names. toposort_flatten (refs_by_name envs) = Inr names \<and> length out = length names \<and>
    (\<forall>i < length names. out ! i \<in> set envs \<and> name (out ! i) = names ! i \<and>
       map_of (refs_by_name envs) (names ! i) = Some (set (refs (out ! i))))"
proof -
  let ?by_name = "fold (\<lambda>env d. AList.update (name env) env d) envs []"
  from assms obtain names where n: "toposort_flatten (refs_by_name envs) = Inr names"
    and c: "collect (map (getitem ?by_name) names) = Inr out"
    by (auto simp add: order_by_refs_def Let_def split: sum.splits)
  from collect_map_InrD[OF c] have a: "list_all2 (\<lambda>x y. getitem ?by_name x = Inr y) names out" .
  then have len: "length out = length names" by (simp add: list_all2_lengthD)
  have "out ! i \<in> set envs \<and> name (out ! i) = names ! i \<and>
       map_of (refs_by_name envs) (names ! i) = Some (set (refs (out ! i)))"
    if "i < length names" for i
  proof -
    from a that have "getitem ?by_name (names ! i) = Inr (out ! i)"
      by (rule list_all2_nthD)
    then have "map_of ?by_name (names ! i) = Some (out ! i)"
      by (auto simp add: getitem_def split: option.splits)
    then show ?thesis by (rule by_name_Some)
  qed
  with n len show ?thesis by blast
qed

lemma order_direct:
  assumes ac: "acyclic (ref_graph envs)"
    and n: "toposort_flatten (refs_by_name envs) = Inr names"
    and i: "i < length names" and e: "(names ! i, r) \<in> ref_graph envs"
  shows "\<exists>j < i. names ! j = r"
proof -
  from e obtain dep where dep: "map_of (refs_by_name envs) (names ! i) = Some dep" "r \<in> dep"
    by (auto simp add: ref_graph_def)
  then have m: "(names ! i, dep) \<in> set (refs_by_name envs)" by (simp add: refs_by_name_mem)
  from toposort_flatten_sound[OF distinct_refs_by_name finite_refs_by_name n] i m
  have "dep - {names ! i} \<subseteq> set (take i names)" by blast
  moreover have "r \<noteq> names ! i"
    using ac e by (auto simp add: acyclic_def)
  ultimately have "r \<in> set (take i names)" using dep(2) by blast
  then obtain j where "j < length (take i names)" "take i names ! j = r"
    by (auto simp add: in_set_conv_nth)
  then show ?thesis by auto
qed

lemma order_transitive:
  assumes ac: "acyclic (ref_graph envs)"
    and n: "toposort_flatten (refs_by_name envs) = Inr names"
    and t: "(a, b) \<in> (ref_graph envs)\<^sup>+"
  shows "\<forall>i < length names. names ! i = a \<longrightarrow> (\<exists>j < i. names ! j = b)"
  using t
proof (induction rule: trancl_induct)
  case (base y)
  then show ?case using order_direct[OF ac n] by blast
next
  case (step y z)
  show ?case
  proof (intro allI impI)
    fix i assume i: "i < length names" "names ! i = a"
    with step.IH obtain j where j: "j < i" "names ! j = y" by blast
    with i(1) step.hyps(2) order_direct[OF ac n, of j z] obtain k where "k < j" "names ! k = z"
      by auto
    with j(1) show "\<exists>j < i. names ! j = z" by (intro exI[of _ k]) simp
  qed
qed

text \<open>
  C3. On an acyclic reference graph, a list that \<open>order_by_refs\<close> returns holds one
  environment for every name of the given list, each taken from that list (all of them
  when no two share a name), and an environment that another one refers to, directly or
  through others, stands at a smaller index than that one. \<open>order_by_refs\<close> does return
  a list when every reference names an environment of the given list.
\<close>

theorem order_by_refs_topological:
  assumes "acyclic (ref_graph envs)"
  shows "(closed_refs envs \<longrightarrow> (\<exists>out. order_by_refs envs = Inr out)) \<and>
    (\<forall>out. order_by_refs envs = Inr out \<longrightarrow>
       distinct (map name out) \<and> set (map name out) = set (map name envs) \<and>
       set out \<subseteq> set envs \<and> (distinct (map name envs) \<longrightarrow> set out = set envs) \<and>
       (\<forall>i j. i < length out \<and> j < length out \<and>
          (name (out ! i), name (out ! j)) \<in> (ref_graph envs)\<^sup>+ \<longrightarrow> j < i))"
proof (intro conjI impI allI)
  let ?topology = "refs_by_name envs"
  let ?by_name = "fold (\<lambda>env d. AList.update (name env) env d) envs []"
  assume cl: "closed_refs envs"
  from assms have "acyclic (edges ?topology)" by (simp add: edges_refs_by_name)
  with toposort_flatten_total[OF distinct_refs_by_name finite_refs_by_name]
  obtain names where n: "toposort_flatten ?topology = Inr names" by blast
  note s = toposort_flatten_sound[OF distinct_refs_by_name finite_refs_by_name n]
  note s2 = s[THEN conjunct2, THEN conjunct1]
  have keys: "fst ` set ?topology = name ` set envs"
    using dom_refs_by_name[of envs] by (simp add: dom_map_of_conv_image_fst)
  have deps: "\<Union> (snd ` set ?topology) \<subseteq> name ` set envs"
  proof
    fix r assume "r \<in> \<Union> (snd ` set ?topology)"
    then obtain k dep where "(k, dep) \<in> set ?topology" "r \<in> dep" by auto
    then have "(k, r) \<in> ref_graph envs"
      by (auto simp add: ref_graph_def refs_by_name_mem)
    with cl show "r \<in> name ` set envs" by (rule ref_graph_closed)
  qed
  have "getitem ?by_name x = Inr (the (map_of ?by_name x))" if "x \<in> set names" for x
  proof -
    from that have "x \<in> fst ` set ?topology \<union> \<Union> (snd ` set ?topology)"
      unfolding s2 .
    with keys deps have "x \<in> name ` set envs" by blast
    then have "x \<in> dom (map_of ?by_name)" by (simp only: dom_by_name)
    then show ?thesis by (auto simp add: getitem_def)
  qed
  then have "collect (map (getitem ?by_name) names) =
      Inr (map (\<lambda>x. the (map_of ?by_name x)) names)"
    by (rule collect_map_Inr)
  with n show "\<exists>out. order_by_refs envs = Inr out"
    by (simp add: order_by_refs_def Let_def)
next
  fix out assume o: "order_by_refs envs = Inr out"
  from order_by_refs_Inr[OF o] obtain names where
    n: "toposort_flatten (refs_by_name envs) = Inr names" and len: "length out = length names"
    and el: "\<And>i. i < length names \<Longrightarrow> out ! i \<in> set envs \<and> name (out ! i) = names ! i"
    by blast
  note s = toposort_flatten_sound[OF distinct_refs_by_name finite_refs_by_name n]
  note s1 = s[THEN conjunct1]
  note s2 = s[THEN conjunct2, THEN conjunct1]
  have mn: "map name out = names"
    using len el by (intro nth_equalityI) simp_all
  from s1 show d: "distinct (map name out)" unfolding mn .
  have sub: "set out \<subseteq> set envs"
  proof
    fix x assume "x \<in> set out"
    then obtain i where "i < length out" "out ! i = x" by (auto simp add: in_set_conv_nth)
    with len el[of i] show "x \<in> set envs" by auto
  qed
  then show "set out \<subseteq> set envs" .
  have keys: "fst ` set (refs_by_name envs) = name ` set envs"
    using dom_refs_by_name[of envs] by (simp add: dom_map_of_conv_image_fst)
  have "set names = name ` set out" unfolding mn[symmetric] by simp
  with sub have "set names \<subseteq> name ` set envs" by blast
  moreover have "name ` set envs \<subseteq> set names" unfolding s2 keys by blast
  ultimately show sn: "set (map name out) = set (map name envs)" unfolding mn by simp
  {
    assume de: "distinct (map name envs)"
    have "set envs \<subseteq> set out"
    proof
      fix e assume e: "e \<in> set envs"
      then have "name e \<in> set (map name out)" unfolding sn by simp
      then obtain x where x: "x \<in> set out" "name x = name e" by auto
      with sub have "x \<in> set envs" by blast
      with de e x(2) have "x = e" by (simp add: distinct_map inj_on_def)
      with x(1) show "e \<in> set out" by simp
    qed
    with sub show "set out = set envs" by blast
  }
  {
    fix i j
    assume a: "i < length out \<and> j < length out \<and>
      (name (out ! i), name (out ! j)) \<in> (ref_graph envs)\<^sup>+"
    then have ij: "i < length names" "j < length names"
      and r: "(name (out ! i), name (out ! j)) \<in> (ref_graph envs)\<^sup>+"
      using len by simp_all
    from el[OF ij(1)] el[OF ij(2)] r
    have t: "(names ! i, names ! j) \<in> (ref_graph envs)\<^sup>+" by simp
    from order_transitive[OF assms n t] a len obtain j' where j': "j' < i" "names ! j' = names ! j"
      by auto
    from s1 j' a len have "j' = j" by (simp add: nth_eq_iff_index_eq)
    with j'(1) show "j < i" by simp
  }
qed

lemma unordered_graph:
  "ref_graph [\<lparr>name = ''local'', refs = [''test'']\<rparr>, \<lparr>name = ''test'', refs = [''base'']\<rparr>,
      \<lparr>name = ''base'', refs = []\<rparr>] =
   {(''test'', ''base''), (''local'', ''test'')}"
  by (auto simp add: ref_graph_def refs_by_name_def split: if_splits)

lemma unordered_acyclic:
  "acyclic (ref_graph [\<lparr>name = ''local'', refs = [''test'']\<rparr>, \<lparr>name = ''test'', refs = [''base'']\<rparr>,
      \<lparr>name = ''base'', refs = []\<rparr>])"
  unfolding unordered_graph
  by (rule acyclicI_order[where f = "\<lambda>n. if n = ''local'' then 2 else if n = ''test'' then 1 else (0::nat)"])
     auto

lemma unordered_sorted:
  "order_by_refs [\<lparr>name = ''local'', refs = [''test'']\<rparr>, \<lparr>name = ''test'', refs = [''base'']\<rparr>,
      \<lparr>name = ''base'', refs = []\<rparr>] =
   Inr [\<lparr>name = ''base'', refs = []\<rparr>, \<lparr>name = ''test'', refs = [''base'']\<rparr>,
      \<lparr>name = ''local'', refs = [''test'']\<rparr>]"
  by code_simp

theorem order_by_refs_topological_witness:
  "acyclic (ref_graph [\<lparr>name = ''local'', refs = [''test'']\<rparr>, \<lparr>name = ''test'', refs = [''base'']\<rparr>,
      \<lparr>name = ''base'', refs = []\<rparr>]) \<and>
   closed_refs [\<lparr>name = ''local'', refs = [''test'']\<rparr>, \<lparr>name = ''test'', refs = [''base'']\<rparr>,
      \<lparr>name = ''base'', refs = []\<rparr>] \<and>
   distinct (map name [\<lparr>name = ''local'', refs = [''test'']\<rparr>, \<lparr>name = ''test'', refs = [''base'']\<rparr>,
      \<lparr>name = ''base'', refs = []\<rparr>]) \<and>
   order_by_refs [\<lparr>name = ''local'', refs = [''test'']\<rparr>, \<lparr>name = ''test'', refs = [''base'']\<rparr>,
      \<lparr>name = ''base'', refs = []\<rparr>] =
     Inr [\<lparr>name = ''base'', refs = []\<rparr>, \<lparr>name = ''test'', refs = [''base'']\<rparr>,
      \<lparr>name = ''local'', refs = [''test'']\<rparr>] \<and>
   distinct (map name [\<lparr>name = ''base'', refs = []\<rparr>, \<lparr>name = ''test'', refs = [''base'']\<rparr>,
      \<lparr>name = ''local'', refs = [''test'']\<rparr>]) \<and>
   set (map name [\<lparr>name = ''base'', refs = []\<rparr>, \<lparr>name = ''test'', refs = [''base'']\<rparr>,
      \<lparr>name = ''local'', refs = [''test'']\<rparr>]) =
     set (map name [\<lparr>name = ''local'', refs = [''test'']\<rparr>, \<lparr>name = ''test'', refs = [''base'']\<rparr>,
      \<lparr>name = ''base'', refs = []\<rparr>]) \<and>
   set [\<lparr>name = ''base'', refs = []\<rparr>, \<lparr>name = ''test'', refs = [''base'']\<rparr>,
      \<lparr>name = ''local'', refs = [''test'']\<rparr>] =
     set [\<lparr>name = ''local'', refs = [''test'']\<rparr>, \<lparr>name = ''test'', refs = [''base'']\<rparr>,
      \<lparr>name = ''base'', refs = []\<rparr>] \<and>
   (2::nat) < length [\<lparr>name = ''base'', refs = []\<rparr>, \<lparr>name = ''test'', refs = [''base'']\<rparr>,
      \<lparr>name = ''local'', refs = [''test'']\<rparr>] \<and>
   (0::nat) < length [\<lparr>name = ''base'', refs = []\<rparr>, \<lparr>name = ''test'', refs = [''base'']\<rparr>,
      \<lparr>name = ''local'', refs = [''test'']\<rparr>] \<and>
   (name ([\<lparr>name = ''base'', refs = []\<rparr>, \<lparr>name = ''test'', refs = [''base'']\<rparr>,
      \<lparr>name = ''local'', refs = [''test'']\<rparr>] ! 2),
    name ([\<lparr>name = ''base'', refs = []\<rparr>, \<lparr>name = ''test'', refs = [''base'']\<rparr>,
      \<lparr>name = ''local'', refs = [''test'']\<rparr>] ! 0))
     \<in> (ref_graph [\<lparr>name = ''local'', refs = [''test'']\<rparr>, \<lparr>name = ''test'', refs = [''base'']\<rparr>,
      \<lparr>name = ''base'', refs = []\<rparr>])\<^sup>+ \<and>
   (0::nat) < 2"
proof -
  let ?E = "[\<lparr>name = ''local'', refs = [''test'']\<rparr>, \<lparr>name = ''test'', refs = [''base'']\<rparr>,
      \<lparr>name = ''base'', refs = []\<rparr>]"
  let ?C = "[\<lparr>name = ''base'', refs = []\<rparr>, \<lparr>name = ''test'', refs = [''base'']\<rparr>,
      \<lparr>name = ''local'', refs = [''test'']\<rparr>]"
  have h1: "closed_refs ?E" by (simp add: closed_refs_def)
  have h2: "distinct (map name ?E)" by simp
  have h3: "(2::nat) < length ?C \<and> (0::nat) < length ?C \<and>
      (name (?C ! 2), name (?C ! 0)) \<in> (ref_graph ?E)\<^sup>+"
  proof -
    have "(''local'', ''test'') \<in> ref_graph ?E" and "(''test'', ''base'') \<in> ref_graph ?E"
      unfolding unordered_graph by simp_all
    then have tr: "(''local'', ''base'') \<in> (ref_graph ?E)\<^sup>+"
      by (rule trancl_trans[OF r_into_trancl r_into_trancl])
    have "name (?C ! 2) = ''local''" and "name (?C ! 0) = ''base''" by simp_all
    with tr show ?thesis by simp
  qed
  note t = order_by_refs_topological[OF unordered_acyclic, THEN conjunct2, rule_format,
      OF unordered_sorted]
  from t h2 have c1: "distinct (map name ?C)" and c2: "set (map name ?C) = set (map name ?E)"
    and c3: "set ?C = set ?E"
    by blast+
  from t h3 have c4: "(0::nat) < 2" by blast
  from unordered_acyclic h1 h2 unordered_sorted c1 c2 c3 h3 c4 show ?thesis
    by (intro conjI) blast+
qed

section \<open>Consistency check\<close>

lemma verify_loop_no_fingerprint:
  assumes "files (infile base_dir (Environment_init py_major (name conf) None False)) = Some content"
    and "files (outfile base_dir (Environment_init py_major (name conf) None False)) = Some otext"
    and "List.find (\<lambda>line. startswith line ''# SHA1:'') (open_rt otext) = None"
  shows "verify_loop py_major sha1 base_dir files (conf # env_confs) success log =
    (log @ [(INFO, ''Verifying that '' @
               outfile base_dir (Environment_init py_major (name conf) None False) @
               '' was generated from '' @
               infile base_dir (Environment_init py_major (name conf) None False) @ ''.''),
            (ERROR, ''FAILURE!''),
            (ERROR, ''Expecting: '' @ strip (''# SHA1:'' @ sha1 (strip_bytes content) @ [newline]))],
     Inl (AttributeError ''NoneType object has no attribute strip''))"
  using assms
  by (simp add: generate_hash_comment_def parse_hash_comment_def Let_def)

lemma verify_loop_checked:
  assumes "\<forall>conf \<in> set env_confs. \<exists>content otext found.
      files (infile base_dir (Environment_init py_major (name conf) None False)) = Some content \<and>
      files (outfile base_dir (Environment_init py_major (name conf) None False)) = Some otext \<and>
      List.find (\<lambda>line. startswith line ''# SHA1:'') (open_rt otext) = Some found"
  shows "snd (verify_loop py_major sha1 base_dir files env_confs success log) =
      Inr (success \<and> (\<forall>conf \<in> set env_confs.
        map_sum id Some (generate_hash_comment sha1 files
          (infile base_dir (Environment_init py_major (name conf) None False))) =
        parse_hash_comment files
          (outfile base_dir (Environment_init py_major (name conf) None False)))) \<and>
    length (filter (\<lambda>r. startswith (snd r) ''Verifying that '')
        (fst (verify_loop py_major sha1 base_dir files env_confs success log))) =
    length (filter (\<lambda>r. startswith (snd r) ''Verifying that '') log) + length env_confs"
  using assms
proof (induction env_confs arbitrary: success log)
  case Nil
  then show ?case by simp
next
  case (Cons conf env_confs)
  let ?env = "Environment_init py_major (name conf) None False"
  from Cons.prems obtain content otext found where
    f: "files (infile base_dir ?env) = Some content"
      "files (outfile base_dir ?env) = Some otext"
      "List.find (\<lambda>line. startswith line ''# SHA1:'') (open_rt otext) = Some found"
    by auto
  from Cons.prems have rest: "\<forall>conf \<in> set env_confs. \<exists>content otext found.
      files (infile base_dir (Environment_init py_major (name conf) None False)) = Some content \<and>
      files (outfile base_dir (Environment_init py_major (name conf) None False)) = Some otext \<and>
      List.find (\<lambda>line. startswith line ''# SHA1:'') (open_rt otext) = Some found"
    by simp
  have v: "startswith (''Verifying that '' @ x) ''Verifying that ''" for x
    by (simp add: startswith_def)
  have nv: "\<not> startswith ''FAILURE!'' ''Verifying that ''"
    "\<not> startswith (''Expecting: '' @ x) ''Verifying that ''"
    "\<not> startswith (''Found:     '' @ x) ''Verifying that ''"
    "\<not> startswith ''Success - comments match.'' ''Verifying that ''" for x
    by (simp_all add: startswith_def)
  show ?case
  proof (cases "''# SHA1:'' @ sha1 (strip_bytes content) @ [newline] = found")
    case True
    with f Cons.IH[OF rest] v nv show ?thesis
      by (simp add: generate_hash_comment_def parse_hash_comment_def Let_def)
  next
    case False
    with f Cons.IH[OF rest] v nv show ?thesis
      by (simp add: generate_hash_comment_def parse_hash_comment_def Let_def)
  qed
qed

text \<open>
  C9 fails on the code when an output file holds no fingerprint line. With the
  environments \<open>a\<close> and \<open>b\<close>, where \<open>requirements/a.txt\<close> has no line that starts with
  \<open># SHA1:\<close>, \<open>verify\<close> logs the failure of \<open>a\<close> up to the expected fingerprint and
  ends with \<open>AttributeError\<close>: \<open>b\<close> is not checked, and no record is logged for it.
\<close>

theorem verify_stops_without_fingerprint:
  "verify 3 sha1 ''requirements''
     [''requirements/a.in'' \<mapsto> ''six\<newline>'',
      ''requirements/a.txt'' \<mapsto> ''six==1.11.0\<newline>'',
      ''requirements/b.in'' \<mapsto> ''flask\<newline>'',
      ''requirements/b.txt'' \<mapsto> ''# SHA1:0000\<newline>flask==1.0\<newline>'']
     [\<lparr>name = ''a'', refs = []\<rparr>, \<lparr>name = ''b'', refs = []\<rparr>] =
   ([(INFO, ''Verifying that requirements/a.txt was generated from requirements/a.in.''),
     (ERROR, ''FAILURE!''),
     (ERROR, ''Expecting: '' @ strip (''# SHA1:'' @ sha1 ''six'' @ [newline]))],
    Inl (AttributeError ''NoneType object has no attribute strip''))"
proof -
  let ?files = "[''requirements/a.in'' \<mapsto> ''six\<newline>'',
      ''requirements/a.txt'' \<mapsto> ''six==1.11.0\<newline>'',
      ''requirements/b.in'' \<mapsto> ''flask\<newline>'',
      ''requirements/b.txt'' \<mapsto> ''# SHA1:0000\<newline>flask==1.0\<newline>'']"
  let ?env = "Environment_init 3 (name \<lparr>name = ''a'', refs = []\<rparr>) None False"
  have i: "infile ''requirements'' ?env = ''requirements/a.in''"
    and o: "outfile ''requirements'' ?env = ''requirements/a.txt''"
    by code_simp+
  have f1: "?files (infile ''requirements'' ?env) = Some ''six\<newline>''"
    and f2: "?files (outfile ''requirements'' ?env) = Some ''six==1.11.0\<newline>''"
    unfolding i o by simp_all
  have n: "List.find (\<lambda>line. startswith line ''# SHA1:'') (open_rt ''six==1.11.0\<newline>'') = None"
    by code_simp
  have s: "strip_bytes ''six\<newline>'' = ''six''" by code_simp
  show ?thesis
    unfolding verify_def verify_loop_no_fingerprint[OF f1 f2 n] i o s by simp
qed

section \<open>Trimming\<close>

lemma rstrip_append_nonspace:
  "ys \<noteq> [] \<Longrightarrow> \<not> isspace (last ys) \<Longrightarrow> rstrip (xs @ ys) = xs @ ys"
proof -
  assume a: "ys \<noteq> []" "\<not> isspace (last ys)"
  then have "rev (xs @ ys) \<noteq> []" and "\<not> isspace (hd (rev (xs @ ys)))"
    by (simp_all add: hd_rev)
  then have "dropWhile isspace (rev (xs @ ys)) = rev (xs @ ys)"
    by (cases "rev (xs @ ys)") simp_all
  then show ?thesis by (simp add: rstrip_def)
qed

lemma rstrip_spaces: "rstrip (xs @ replicate n CHR '' '') = rstrip xs"
proof -
  have "dropWhile isspace (replicate n CHR '' '' @ rev xs) = dropWhile isspace (rev xs)"
    by (induction n) (simp_all add: isspace_def)
  then show ?thesis by (simp add: rstrip_def)
qed

lemma length_rstrip: "length (rstrip s) \<le> length s"
  using length_dropWhile_le[of isspace "rev s"] by (simp add: rstrip_def)

lemma length_lstrip: "length (lstrip s) \<le> length s"
  by (simp add: lstrip_def length_dropWhile_le)

lemma dropWhile_same_length:
  "length (dropWhile P xs) = length xs \<Longrightarrow> dropWhile P xs = xs"
proof (cases xs)
  case Nil
  then show ?thesis by simp
next
  case (Cons x xs')
  assume l: "length (dropWhile P xs) = length xs"
  show ?thesis
  proof (cases "P x")
    case True
    with Cons l length_dropWhile_le[of P xs'] show ?thesis by simp
  next
    case False
    with Cons show ?thesis by simp
  qed
qed

lemma strip_fixed:
  assumes "strip s = s"
  shows "lstrip s = s \<and> rstrip s = s"
proof -
  have "length s = length (rstrip (lstrip s))" using assms by (simp add: strip_def)
  also have "\<dots> \<le> length (lstrip s)" by (rule length_rstrip)
  finally have "length (lstrip s) = length s" using length_lstrip[of s] by simp
  then have "lstrip s = s"
    unfolding lstrip_def by (rule dropWhile_same_length)
  with assms show ?thesis by (simp add: strip_def)
qed

lemma strip_fixed_ends:
  assumes "strip s = s" and "s \<noteq> []"
  shows "\<not> isspace (last s)" and "\<not> isspace (hd s)"
proof -
  from strip_fixed[OF assms(1)] have l: "dropWhile isspace s = s"
    and r: "dropWhile isspace (rev s) = rev s"
    by (simp_all add: lstrip_def rstrip_def rev_swap)
  from l assms(2) show "\<not> isspace (hd s)" by (simp add: dropWhile_eq_self_iff)
  from r assms(2) have "\<not> isspace (hd (rev s))"
    by (simp add: dropWhile_eq_self_iff)
  with assms(2) show "\<not> isspace (last s)" by (simp add: hd_rev)
qed

section \<open>The greedy repetition\<close>

lemma star_None:
  "(\<And>a b. s = a @ b \<Longrightarrow> \<forall>x \<in> set a. P x \<Longrightarrow> k (acc @ a) b = None) \<Longrightarrow>
   star P acc s k = None"
proof (induction s arbitrary: acc)
  case Nil
  from Nil[of "[]" "[]"] show ?case by simp
next
  case (Cons c cs)
  have here: "k acc (c # cs) = None" using Cons.prems[of "[]" "c # cs"] by simp
  show ?case
  proof (cases "P c")
    case True
    have "star P (acc @ [c]) cs k = None"
    proof (rule Cons.IH)
      fix a b assume "cs = a @ b" "\<forall>x \<in> set a. P x"
      with True Cons.prems[of "c # a" b] show "k ((acc @ [c]) @ a) b = None" by simp
    qed
    with True here show ?thesis by simp
  next
    case False
    with here show ?thesis by simp
  qed
qed

lemma star_greedy:
  assumes "s = a @ b" and "\<forall>x \<in> set a. P x" and "k (acc @ a) b = Some r"
    and "\<And>a' b'. s = a' @ b' \<Longrightarrow> length a < length a' \<Longrightarrow> \<forall>x \<in> set a'. P x \<Longrightarrow>
      k (acc @ a') b' = None"
  shows "star P acc s k = Some r"
  using assms
proof (induction s arbitrary: acc a)
  case Nil
  then show ?case by simp
next
  case (Cons c cs)
  show ?case
  proof (cases a)
    case Nil
    with Cons.prems have here: "k acc (c # cs) = Some r" by simp
    show ?thesis
    proof (cases "P c")
      case True
      have "star P (acc @ [c]) cs k = None"
      proof (rule star_None)
        fix a' b' assume "cs = a' @ b'" "\<forall>x \<in> set a'. P x"
        with True Nil Cons.prems(4)[of "c # a'" b'] show "k ((acc @ [c]) @ a') b' = None"
          by simp
      qed
      with True here show ?thesis by simp
    next
      case False
      with here show ?thesis by simp
    qed
  next
    case (Cons c' a1)
    with Cons.prems(1,2) have c: "c' = c" "P c" "cs = a1 @ b" "\<forall>x \<in> set a1. P x"
      by simp_all
    have "star P (acc @ [c]) cs k = Some r"
    proof (rule Cons.IH[OF c(3,4)])
      from Cons.prems(3) Cons c(1) show "k ((acc @ [c]) @ a1) b = Some r" by simp
    next
      fix a' b' assume "cs = a' @ b'" "length a1 < length a'" "\<forall>x \<in> set a'. P x"
      with c Cons Cons.prems(4)[of "c # a'" b'] show "k ((acc @ [c]) @ a') b' = None"
        by simp
    qed
    with c(2) show ?thesis by simp
  qed
qed

lemma star_SomeD:
  "star P acc s k = Some r \<Longrightarrow>
   \<exists>a b. s = a @ b \<and> (\<forall>x \<in> set a. P x) \<and> k (acc @ a) b = Some r"
proof (induction s arbitrary: acc)
  case Nil
  then show ?case by simp
next
  case (Cons c cs)
  show ?case
  proof (cases "P c \<and> star P (acc @ [c]) cs k \<noteq> None")
    case True
    with Cons.prems have "star P (acc @ [c]) cs k = Some r" by auto
    from Cons.IH[OF this] obtain a b where
      "cs = a @ b" "\<forall>x \<in> set a. P x" "k ((acc @ [c]) @ a) b = Some r" by blast
    with True show ?thesis by (intro exI[of _ "c # a"] exI[of _ b]) simp
  next
    case False
    with Cons.prems have "k acc (c # cs) = Some r" by (auto split: if_splits)
    then show ?thesis by (intro exI[of _ "[]"] exI[of _ "c # cs"]) simp
  qed
qed

section \<open>Matching a serialized dependency\<close>

lemma longer_prefix:
  assumes "u @ w = a' @ b'" and "length u < length a'"
  shows "\<exists>x. a' = u @ x \<and> w = x @ b' \<and> x \<noteq> []"
proof -
  have "take (length u) (u @ w) = take (length u) (a' @ b')" using assms(1) by simp
  with assms(2) have u: "u = take (length u) a'" by simp
  have "drop (length u) (u @ w) = drop (length u) (a' @ b')" using assms(1) by simp
  with assms(2) have w: "w = drop (length u) a' @ b'" by simp
  have "a' = take (length u) a' @ drop (length u) a'" by simp
  with u have a: "a' = u @ drop (length u) a'" by simp
  from assms(2) have "drop (length u) a' \<noteq> []" by simp
  with a w show ?thesis by blast
qed

lemma comment_stage:
  assumes "c = [] \<or> (hd c = CHR ''#'' \<and> newline \<notin> set c)"
  shows "opt_comment c (\<lambda>comment s5. if eol s5 then Some (pk, ver, comment) else None) =
    Some (pk, ver, if c = [] then None else Some c)"
proof (cases c)
  case Nil
  then show ?thesis by (simp add: opt_comment_def eol_def)
next
  case (Cons h c1)
  with assms have h: "h = CHR ''#''" and d: "\<forall>x \<in> set c1. dot x"
    by (auto simp add: dot_def)
  have "star dot [h] c1 (\<lambda>m rest. if eol rest then Some (pk, ver, Some m) else None) =
      Some (pk, ver, Some (h # c1))"
  proof (rule star_greedy[where a = c1 and b = "[]"])
    show "c1 = c1 @ []" by simp
    show "\<forall>x \<in> set c1. dot x" by (rule d)
    show "(if eol [] then Some (pk, ver, Some ([h] @ c1)) else None) = Some (pk, ver, Some (h # c1))"
      by (simp add: eol_def)
  next
    fix a' b' assume "c1 = a' @ b'" "length c1 < length a'"
    then show "(if eol b' then Some (pk, ver, Some ([h] @ a')) else None) = None" by simp
  qed
  with Cons h show ?thesis by (simp add: opt_comment_def)
qed

lemma spaces_stage:
  assumes "c = [] \<or> (hd c = CHR ''#'' \<and> newline \<notin> set c)"
  shows "star space [] (replicate n CHR '' '' @ c)
      (\<lambda>_ s4. opt_comment s4 (\<lambda>comment s5. if eol s5 then Some (pk, ver, comment) else None)) =
    Some (pk, ver, if c = [] then None else Some c)"
proof (rule star_greedy[where a = "replicate n CHR '' ''" and b = c])
  show "replicate n CHR '' '' @ c = replicate n CHR '' '' @ c" by simp
  show "\<forall>x \<in> set (replicate n CHR '' ''). space x" by (simp add: space_def)
  show "opt_comment c (\<lambda>comment s5. if eol s5 then Some (pk, ver, comment) else None) =
      Some (pk, ver, if c = [] then None else Some c)"
    using assms by (rule comment_stage)
next
  fix a' b'
  assume s: "replicate n CHR '' '' @ c = a' @ b'"
    and l: "length (replicate n CHR '' '') < length a'" and sp: "\<forall>x \<in> set a'. space x"
  from longer_prefix[OF s l] obtain x where
    x: "a' = replicate n CHR '' '' @ x" "c = x @ b'" "x \<noteq> []"
    by blast
  then have "hd c = hd x" and "hd x \<in> set a'" and "c \<noteq> []" by simp_all
  with sp assms have False by (auto simp add: space_def)
  then show "opt_comment b' (\<lambda>comment s5. if eol s5 then Some (pk, ver, comment) else None) = None"
    by simp
qed

lemma version_stage:
  assumes v: "v \<noteq> []" "CHR '' '' \<notin> set v"
    and c: "c = [] \<or> (hd c = CHR ''#'' \<and> newline \<notin> set c)"
    and n: "c \<noteq> [] \<longrightarrow> 0 < n"
  shows "plus_re not_space (v @ replicate n CHR '' '' @ c)
      (\<lambda>version s3. star space [] s3
         (\<lambda>_ s4. opt_comment s4 (\<lambda>comment s5. if eol s5 then Some (pk, version, comment) else None))) =
    Some (pk, v, if c = [] then None else Some c)"
proof -
  from v(1) obtain v0 v1 where vv: "v = v0 # v1" by (cases v) auto
  with v(2) have ns: "not_space v0" "\<forall>x \<in> set v1. not_space x"
    by (auto simp add: not_space_def)
  have "star not_space [v0] (v1 @ replicate n CHR '' '' @ c)
      (\<lambda>version s3. star space [] s3
         (\<lambda>_ s4. opt_comment s4 (\<lambda>comment s5. if eol s5 then Some (pk, version, comment) else None))) =
    Some (pk, v, if c = [] then None else Some c)"
  proof (rule star_greedy[where a = v1 and b = "replicate n CHR '' '' @ c"])
    show "v1 @ replicate n CHR '' '' @ c = v1 @ replicate n CHR '' '' @ c" by simp
    show "\<forall>x \<in> set v1. not_space x" by (rule ns(2))
    show "star space [] (replicate n CHR '' '' @ c)
        (\<lambda>_ s4. opt_comment s4
           (\<lambda>comment s5. if eol s5 then Some (pk, [v0] @ v1, comment) else None)) =
      Some (pk, v, if c = [] then None else Some c)"
      using spaces_stage[OF c, of n pk "[v0] @ v1"] vv by simp
  next
    fix a' b'
    assume s: "v1 @ replicate n CHR '' '' @ c = a' @ b'"
      and l: "length v1 < length a'" and nsp: "\<forall>x \<in> set a'. not_space x"
    from longer_prefix[OF s l] obtain x where
      x: "a' = v1 @ x" "replicate n CHR '' '' @ c = x @ b'" "x \<noteq> []"
      by blast
    have "n \<noteq> 0"
    proof
      assume "n = 0"
      with n have "c = []" by simp
      with \<open>n = 0\<close> x(2,3) show False by simp
    qed
    then obtain m where "n = Suc m" by (cases n) auto
    with x(2,3) have "hd x = CHR '' ''" by (cases x) simp_all
    moreover from x(1,3) have "hd x \<in> set a'" by simp
    ultimately have False using nsp by (auto simp add: not_space_def)
    then show "star space [] b'
        (\<lambda>_ s4. opt_comment s4
           (\<lambda>comment s5. if eol s5 then Some (pk, [v0] @ a', comment) else None)) = None"
      by simp
  qed
  with vv ns(1) show ?thesis by (simp add: plus_re_def)
qed

lemma no_later_equals:
  assumes "CHR ''='' \<notin> set u" and "u @ w = x @ ''=='' @ t"
  shows "\<exists>x'. w = x' @ ''=='' @ t"
  using assms
proof (induction u arbitrary: x)
  case Nil
  then show ?case by auto
next
  case (Cons a u)
  show ?case
  proof (cases x)
    case Nil
    with Cons.prems show ?thesis by simp
  next
    case (Cons b x1)
    with Cons.prems have "u @ w = x1 @ ''=='' @ t" "CHR ''='' \<notin> set u" by simp_all
    then show ?thesis using Cons.IH by blast
  qed
qed

end
